theory Spec2Isabelle
  imports Complex_Main "HOL-Library.Multiset"
begin

section \<open>Contour tracer (findContours, traceContour)\<close>

text \<open>
  A contour point \<open>{x, y}\<close> is a pair of integer pixel coordinates. A pixel buffer
  (\<open>Uint8Array\<close>) is a list of bytes; reading it outside its range yields
  \<open>undefined\<close> in the source, which is \<open>None\<close> here, so that the comparisons
  \<open>=== 255\<close> and \<open>=== 0\<close> fail there as they do in the source.
\<close>

type_synonym point = "int \<times> int"

definition rd :: "nat list \<Rightarrow> int \<Rightarrow> nat option" where
  "rd data i = (if 0 \<le> i \<and> nat i < length data then Some (data ! nat i) else None)"

text \<open>Moore neighbourhood (8-connected), the arrays \<open>dx\<close> and \<open>dy\<close> of findContours.\<close>

definition dxs :: "int list" where
  "dxs = [1, 1, 0, -1, -1, -1, 0, 1]"

definition dys :: "int list" where
  "dys = [0, 1, 1, 1, 0, -1, -1, -1]"

text \<open>
  The inner \<open>for (let i = 0; i < 8; i++)\<close> loop of traceContour: the first white
  in-bounds neighbour, searched from \<open>startDir\<close> on, with the direction it was found in.
\<close>

function findNext :: "nat list \<Rightarrow> nat \<Rightarrow> nat \<Rightarrow> int \<Rightarrow> int \<Rightarrow> nat \<Rightarrow> nat \<Rightarrow> (int \<times> int \<times> nat) option" where
  "findNext data width height x y startDir i =
     (if i < 8 then
        (let checkDir = (startDir + i) mod 8;
             nx = x + dxs ! checkDir;
             ny = y + dys ! checkDir
         in if 0 \<le> nx \<and> nx < int width \<and> 0 \<le> ny \<and> ny < int height
               \<and> rd data (ny * int width + nx) = Some 255
            then Some (nx, ny, checkDir)
            else findNext data width height x y startDir (i + 1))
      else None)"
  by pat_completeness auto
termination
  by (relation "measure (\<lambda>(data, width, height, x, y, startDir, i). 8 - i)") auto

declare findNext.simps [simp del]

text \<open>
  The three ways the \<open>do ... while\<close> loop of traceContour ends. The source returns
  the contour only; the label is a ghost value recording which exit was taken.
\<close>

datatype loopExit = Closed | NoNeighbour | Budget

text \<open>
  The \<open>do ... while\<close> loop of traceContour, started at the loop head with the current
  pixel, direction, iteration count, the contour pushed so far and the visited buffer.
\<close>

function traceLoop ::
  "nat list \<Rightarrow> nat \<Rightarrow> nat \<Rightarrow> int \<Rightarrow> int \<Rightarrow> int \<Rightarrow> int \<Rightarrow> nat \<Rightarrow> nat \<Rightarrow> point list \<Rightarrow> nat list
     \<Rightarrow> point list \<times> nat list \<times> loopExit" where
  "traceLoop data width height startX startY x y dir iterations contour visited =
     (let contour' = contour @ [(x, y)];
          visited' = visited[nat (y * int width + x) := 1]
      in case findNext data width height x y ((dir + 6) mod 8) 0 of
           None \<Rightarrow> (contour', visited', NoNeighbour)
         | Some (nx, ny, checkDir) \<Rightarrow>
             if (nx \<noteq> startX \<or> ny \<noteq> startY) \<and> iterations + 1 < width * height
             then traceLoop data width height startX startY nx ny checkDir (iterations + 1)
                    contour' visited'
             else (contour', visited',
                   if nx \<noteq> startX \<or> ny \<noteq> startY then Budget else Closed))"
  by pat_completeness auto
termination
  by (relation "measure (\<lambda>(data, width, height, startX, startY, x, y, dir, iterations, contour, visited).
        width * height - iterations)") auto

declare traceLoop.simps [simp del]

definition traceContour :: "nat list \<Rightarrow> nat list \<Rightarrow> nat \<Rightarrow> nat \<Rightarrow> int \<Rightarrow> int \<Rightarrow> point list \<times> nat list" where
  "traceContour data visited width height startX startY =
     (case traceLoop data width height startX startY startX startY 0 0 [] visited of
        (contour, visited', ex) \<Rightarrow> (contour, visited'))"

text \<open>
  The start test of findContours: a white pixel, not yet visited, with a black pixel to
  its left.
\<close>

definition startsTrace :: "nat list \<Rightarrow> nat list \<Rightarrow> nat \<Rightarrow> int \<Rightarrow> int \<Rightarrow> bool" where
  "startsTrace data visited width x y =
     (let idx = y * int width + x
      in rd data idx = Some 255 \<and> (case rd visited idx of None \<Rightarrow> True | Some v \<Rightarrow> v = 0)
         \<and> rd data (idx - 1) = Some 0)"

text \<open>The body of the two nested scan loops, on the pair (visited, contours).\<close>

definition scanPixel ::
  "nat list \<Rightarrow> nat \<Rightarrow> nat \<Rightarrow> point \<Rightarrow> nat list \<times> point list list \<Rightarrow> nat list \<times> point list list" where
  "scanPixel data width height p st =
     (case p of (x, y) \<Rightarrow> case st of (visited, contours) \<Rightarrow>
        if startsTrace data visited width x y
        then (case traceContour data visited width height x y of
                (contour, visited') \<Rightarrow>
                  (visited', if 20 \<le> length contour then contours @ [contour] else contours))
        else (visited, contours))"

text \<open>
  The pixels visited by \<open>for (y = 1; y < height - 1; y++) for (x = 1; x < width - 1; x++)\<close>,
  in that order.
\<close>

definition scanOrder :: "nat \<Rightarrow> nat \<Rightarrow> point list" where
  "scanOrder width height =
     concat (map (\<lambda>y. map (\<lambda>x. (x, y)) [1 .. int width - 2]) [1 .. int height - 2])"

definition findContours :: "nat list \<Rightarrow> nat \<Rightarrow> nat \<Rightarrow> point list list" where
  "findContours data width height =
     snd (foldl (\<lambda>st p. scanPixel data width height p st)
            (replicate (width * height) 0, []) (scanOrder width height))"

text \<open>A pixel inside the image whose mask value is 255.\<close>

definition white :: "nat list \<Rightarrow> nat \<Rightarrow> nat \<Rightarrow> point \<Rightarrow> bool" where
  "white data width height p =
     (0 \<le> fst p \<and> fst p < int width \<and> 0 \<le> snd p \<and> snd p < int height
      \<and> rd data (snd p * int width + fst p) = Some 255)"

text \<open>What every contour handed on by findContours looks like.\<close>

definition tracedFrom :: "nat list \<Rightarrow> nat \<Rightarrow> nat \<Rightarrow> point list \<Rightarrow> bool" where
  "tracedFrom data width height c =
     (\<exists>s q ys. c = s # q # ys \<and> q \<noteq> s \<and> 20 \<le> length c
        \<and> (\<forall>p \<in> set c. white data width height p)
        \<and> 1 \<le> fst s \<and> fst s \<le> int width - 2 \<and> 1 \<le> snd s \<and> snd s \<le> int height - 2
        \<and> rd data (snd s * int width + fst s - 1) = Some 0)"

section \<open>Numbers\<close>

text \<open>
  The numbers of the source are IEEE doubles; they are modelled by the reals, so rounding
  is not modelled. A division of the source can also yield an infinity or NaN (a zero
  divisor); the two divisions whose divisor can be zero (the aspect ratio and the IoU) get
  the result type \<open>jsnum\<close>. Comparing NaN is false both ways, as in the source.
\<close>

datatype jsnum = Num real | PosInf | NegInf | NaN

definition jsdiv :: "real \<Rightarrow> real \<Rightarrow> jsnum" where
  "jsdiv a b = (if b \<noteq> 0 then Num (a / b)
                else if 0 < a then PosInf else if a < 0 then NegInf else NaN)"

fun jslt :: "jsnum \<Rightarrow> real \<Rightarrow> bool" where
  "jslt (Num a) r = (a < r)"
| "jslt NegInf r = True"
| "jslt PosInf r = False"
| "jslt NaN r = False"

fun jsgt :: "jsnum \<Rightarrow> real \<Rightarrow> bool" where
  "jsgt (Num a) r = (r < a)"
| "jsgt PosInf r = True"
| "jsgt NegInf r = False"
| "jsgt NaN r = False"

section \<open>Geometry\<close>

text \<open>calculateContourArea: the shoelace sum over the integer points, halved.\<close>

definition calculateContourArea :: "point list \<Rightarrow> real" where
  "calculateContourArea contour =
     (let n = length contour;
          area = foldl (\<lambda>area i.
                   let j = (i + 1) mod n
                   in area + fst (contour ! i) * snd (contour ! j)
                           - fst (contour ! j) * snd (contour ! i))
                   (0::int) [0 ..< n]
      in \<bar>real_of_int area / 2\<bar>)"

definition getContourPerimeter :: "point list \<Rightarrow> real" where
  "getContourPerimeter contour =
     (let n = length contour
      in foldl (\<lambda>perimeter i.
           let j = (i + 1) mod n;
               dx = real_of_int (fst (contour ! j) - fst (contour ! i));
               dy = real_of_int (snd (contour ! j) - snd (contour ! i))
           in perimeter + sqrt (dx * dx + dy * dy))
           0 [0 ..< n])"

text \<open>
  getBoundingBox. On an empty contour the source returns infinities
  (\<open>x = y = Infinity\<close>, \<open>width = height = -Infinity\<close>); that result is \<open>None\<close> here.
\<close>

record rect =
  rx :: int
  ry :: int
  rwidth :: int
  rheight :: int

definition getBoundingBox :: "point list \<Rightarrow> rect option" where
  "getBoundingBox contour =
     (case contour of
        [] \<Rightarrow> None
      | p # ps \<Rightarrow>
          (let minX = foldl min (fst p) (map fst ps);
               minY = foldl min (snd p) (map snd ps);
               maxX = foldl max (fst p) (map fst ps);
               maxY = foldl max (snd p) (map snd ps)
           in Some \<lparr>rx = minX, ry = minY, rwidth = maxX - minX, rheight = maxY - minY\<rparr>))"

definition pointToLineDistance :: "point \<Rightarrow> point \<Rightarrow> point \<Rightarrow> real" where
  "pointToLineDistance pt lineStart lineEnd =
     (let dx = real_of_int (fst lineEnd - fst lineStart);
          dy = real_of_int (snd lineEnd - snd lineStart);
          len = sqrt (dx * dx + dy * dy)
      in if len = 0
         then sqrt ((real_of_int (fst pt - fst lineStart))\<^sup>2 + (real_of_int (snd pt - snd lineStart))\<^sup>2)
         else
           (let t = max 0 (min 1
                      ((real_of_int (fst pt - fst lineStart) * dx
                        + real_of_int (snd pt - snd lineStart) * dy) / (len * len)));
                projX = real_of_int (fst lineStart) + t * dx;
                projY = real_of_int (snd lineStart) + t * dy
            in sqrt ((real_of_int (fst pt) - projX)\<^sup>2 + (real_of_int (snd pt) - projY)\<^sup>2)))"

section \<open>Polygon approximation (approximatePolygon)\<close>

text \<open>
  The search loop of approximatePolygon over \<open>i = 1 .. length - 2\<close>: the largest
  distance from the chord first-last and the first index where it is reached.
\<close>

definition maxDistance :: "point list \<Rightarrow> real \<times> nat" where
  "maxDistance contour =
     foldl (\<lambda>(maxDist, maxIdx) i.
        let dst = pointToLineDistance (contour ! i) (contour ! 0) (contour ! (length contour - 1))
        in if dst > maxDist then (dst, i) else (maxDist, maxIdx))
       (0, 0) [1 ..< length contour - 1]"

text \<open>
  Douglas-Peucker. \<open>None\<close> stands for a recursion that does not end (the engine then
  raises a RangeError): with a negative epsilon and all points on the chord the right half
  is the whole contour again.
\<close>

partial_function (option) approximatePolygon :: "point list \<Rightarrow> real \<Rightarrow> point list option" where
  "approximatePolygon contour epsilon =
     (if length contour < 3 then Some contour
      else (case maxDistance contour of
              (maxDist, maxIdx) \<Rightarrow>
                if maxDist > epsilon
                then Option.bind (approximatePolygon (take (maxIdx + 1) contour) epsilon) (\<lambda>left.
                     Option.bind (approximatePolygon (drop maxIdx contour) epsilon) (\<lambda>right.
                       Some (butlast left @ right)))
                else Some [contour ! 0, contour ! (length contour - 1)]))"

section \<open>Curvature corner search (findCorners)\<close>

text \<open>
  The sampled points carry an extra field \<open>originalIdx\<close> in the source; nothing reads it,
  and it is left out. An entry of \<open>curvatures\<close> is the triple (point, curvature, idx).
  The index \<open>(i - windowSize + length) % length\<close> is taken on the integers: with at least
  3 samples the dividend is not negative (windowSize is then at most the number of samples),
  which is the case whenever numCorners is at least 2; the pipeline always passes 4.
\<close>

definition sampleContour :: "point list \<Rightarrow> point list" where
  "sampleContour contour =
     (let step = max 1 (length contour div 100)
      in map (\<lambda>i. contour ! i) (filter (\<lambda>i. i mod step = 0) [0 ..< length contour]))"

definition curvatureAt :: "point list \<Rightarrow> nat \<Rightarrow> nat \<Rightarrow> (point \<times> real \<times> nat) list" where
  "curvatureAt sampledPoints windowSize i =
     (let n = length sampledPoints;
          prev = sampledPoints ! nat ((int i - int windowSize + int n) mod int n);
          curr = sampledPoints ! i;
          next = sampledPoints ! ((i + windowSize) mod n);
          v1x = real_of_int (fst curr - fst prev);
          v1y = real_of_int (snd curr - snd prev);
          v2x = real_of_int (fst next - fst curr);
          v2y = real_of_int (snd next - snd curr);
          dot = v1x * v2x + v1y * v2y;
          len1 = sqrt (v1x * v1x + v1y * v1y);
          len2 = sqrt (v2x * v2x + v2y * v2y)
      in if len1 > 0 \<and> len2 > 0
         then (let cosv = max (-1) (min 1 (dot / (len1 * len2)));
                   angle = arccos cosv
               in [(curr, pi - angle, i)])
         else [])"

text \<open>The test \<open>tooClose\<close>: some corner chosen so far is nearer than minDist.\<close>

definition tooClose :: "point \<Rightarrow> point list \<Rightarrow> real \<Rightarrow> bool" where
  "tooClose p corners minDist =
     list_ex (\<lambda>corner.
        let dx = real_of_int (fst p - fst corner);
            dy = real_of_int (snd p - snd corner)
        in sqrt (dx * dx + dy * dy) < minDist) corners"

text \<open>The selection loop \<open>for (const c of curvatures)\<close>, with its break.\<close>

fun selectCorners :: "(point \<times> real \<times> nat) list \<Rightarrow> real \<Rightarrow> nat \<Rightarrow> point list \<Rightarrow> point list" where
  "selectCorners [] minDist numCorners corners = corners"
| "selectCorners (c # cs) minDist numCorners corners =
     (if \<not> tooClose (fst c) corners minDist
      then (let corners' = corners @ [fst c]
            in if length corners' \<ge> numCorners then corners'
               else selectCorners cs minDist numCorners corners')
      else selectCorners cs minDist numCorners corners)"

text \<open>
  \<open>curvatures.sort((a, b) => b.curvature - a.curvature)\<close>: a stable sort, largest
  curvature first.
\<close>

definition findCorners :: "point list \<Rightarrow> nat \<Rightarrow> point list" where
  "findCorners contour numCorners =
     (if length contour < numCorners * 2 then []
      else
        (let sampledPoints = sampleContour contour;
             windowSize = max 3 (length sampledPoints div 20);
             curvatures = concat (map (curvatureAt sampledPoints windowSize)
                                    [0 ..< length sampledPoints]);
             sortedCurvatures = sort_key (\<lambda>c. - fst (snd c)) curvatures;
             minDist = (case getBoundingBox contour of
                          None \<Rightarrow> 0
                        | Some bbox \<Rightarrow> real_of_int (min (rwidth bbox) (rheight bbox)) * 0.2)
         in selectCorners sortedCurvatures minDist numCorners []))"

section \<open>Ordering the corners of a quadrilateral (orderQuadPoints), convexity\<close>

text \<open>\<open>Math.atan2(y, x)\<close> on the reals.\<close>

definition atan2 :: "real \<Rightarrow> real \<Rightarrow> real" where
  "atan2 y x =
     (if 0 < x then arctan (y / x)
      else if x < 0 \<and> 0 \<le> y then arctan (y / x) + pi
      else if x < 0 \<and> y < 0 then arctan (y / x) - pi
      else if 0 < y then pi / 2
      else if y < 0 then - pi / 2
      else 0)"

text \<open>The centroid of the four points, and the angle of a point seen from it.\<close>

definition centroid :: "point list \<Rightarrow> real \<times> real" where
  "centroid points =
     (real_of_int (foldl (\<lambda>acc p. acc + fst p) 0 points) / 4,
      real_of_int (foldl (\<lambda>acc p. acc + snd p) 0 points) / 4)"

definition angleFrom :: "real \<times> real \<Rightarrow> point \<Rightarrow> real" where
  "angleFrom c p = atan2 (real_of_int (snd p) - snd c) (real_of_int (fst p) - fst c)"

text \<open>
  The loop that finds the top-left point: the first index with the smallest \<open>x + y\<close>.
  \<open>minSum\<close> starts as Infinity, which is \<open>None\<close> here.
\<close>

definition findStartIdx :: "point list \<Rightarrow> nat" where
  "findStartIdx sortedPoints =
     snd (foldl (\<lambda>(minSum, startIdx) i.
            let s = fst (sortedPoints ! i) + snd (sortedPoints ! i)
            in if (case minSum of None \<Rightarrow> True | Some m \<Rightarrow> s < m)
               then (Some s, i) else (minSum, startIdx))
          (None, 0) [0 ..< 4])"

definition orderQuadPoints :: "point list \<Rightarrow> point list" where
  "orderQuadPoints points =
     (if length points \<noteq> 4 then points
      else
        (let c = centroid points;
             sortedPoints = sort_key (angleFrom c) points;
             startIdx = findStartIdx sortedPoints
         in map (\<lambda>i. sortedPoints ! ((startIdx + i) mod 4)) [0 ..< 4]))"

text \<open>isConvex: the loop carries \<open>sign\<close>; \<open>None\<close> is the early \<open>return false\<close>.\<close>

definition isConvex :: "point list \<Rightarrow> bool" where
  "isConvex points =
     (if length points < 3 then False
      else
        (let n = length points
         in foldl (\<lambda>st i.
              case st of
                None \<Rightarrow> None
              | Some sign \<Rightarrow>
                  (let p1 = points ! i;
                       p2 = points ! ((i + 1) mod n);
                       p3 = points ! ((i + 2) mod n);
                       cross = (fst p2 - fst p1) * (snd p3 - snd p2)
                               - (snd p2 - snd p1) * (fst p3 - fst p2)
                   in if cross \<noteq> 0
                      then (if sign = 0 then Some (if cross > 0 then 1 else -1)
                            else if (if cross > 0 then 1 else -1) \<noteq> sign then None
                            else Some sign)
                      else Some sign))
              (Some (0::int)) [0 ..< n] \<noteq> None))"

section \<open>Choosing the approximation of a contour\<close>

text \<open>
  The loop \<open>for (const epsilonFactor of [0.01, 0.02, 0.03, 0.04, 0.05])\<close> of
  detectDocuments, on the factors still to try and \<open>bestApprox\<close> (\<open>None\<close> is
  \<open>null\<close>). The outer option is that of approximatePolygon.
\<close>

fun sweep :: "point list \<Rightarrow> real list \<Rightarrow> point list option \<Rightarrow> point list option option" where
  "sweep contour [] bestApprox = Some bestApprox"
| "sweep contour (epsilonFactor # rest) bestApprox =
     (case approximatePolygon contour (epsilonFactor * getContourPerimeter contour) of
        None \<Rightarrow> None
      | Some approx \<Rightarrow>
          if length approx = 4 then Some (Some approx)
          else sweep contour rest
                 (if 4 \<le> length approx \<and> length approx \<le> 8
                     \<and> (case bestApprox of
                           None \<Rightarrow> True
                         | Some best \<Rightarrow> \<bar>int (length approx) - 4\<bar> < \<bar>int (length best) - 4\<bar>)
                  then Some approx else bestApprox))"

definition epsilonFactors :: "real list" where
  "epsilonFactors = [0.01, 0.02, 0.03, 0.04, 0.05]"

text \<open>The sweep followed by the fallback \<open>if (!bestApprox || bestApprox.length > 6)\<close>.\<close>

definition chooseApprox :: "point list \<Rightarrow> point list option option" where
  "chooseApprox contour =
     (case sweep contour epsilonFactors None of
        None \<Rightarrow> None
      | Some bestApprox \<Rightarrow>
          if (case bestApprox of None \<Rightarrow> True | Some best \<Rightarrow> length best > 6)
          then (let corners = findCorners contour 4
                in if length corners = 4 then Some (Some corners) else Some bestApprox)
          else Some bestApprox)"

section \<open>Boundaries: filter, overlap, classification\<close>

record boundary =
  b_points :: "point list"
  b_area :: real
  b_aspectRatio :: jsnum
  b_numVertices :: nat
  b_boundingRect :: rect
  b_isConvex :: bool
  b_type :: "string option"

text \<open>
  \<open>bbox.width / bbox.height\<close>. On the infinities of an empty contour the quotient is
  NaN.
\<close>

definition aspectRatioOf :: "point list \<Rightarrow> jsnum" where
  "aspectRatioOf contour =
     (case getBoundingBox contour of
        None \<Rightarrow> NaN
      | Some bbox \<Rightarrow> jsdiv (real_of_int (rwidth bbox)) (real_of_int (rheight bbox)))"

text \<open>The two \<open>continue\<close> tests at the head of the loop over the contours.\<close>

definition passesFilter :: "real \<Rightarrow> real \<Rightarrow> point list \<Rightarrow> bool" where
  "passesFilter minArea maxArea contour =
     (let area = calculateContourArea contour
      in if area < minArea \<or> area > maxArea then False
         else (let aspectRatio = aspectRatioOf contour
               in if jslt aspectRatio 0.3 \<or> jsgt aspectRatio 3.5 then False else True))"

text \<open>
  The body of the loop over the contours: \<open>Some None\<close> when nothing is pushed,
  \<open>Some (Some b)\<close> when the boundary \<open>b\<close> is pushed. An empty contour has no bounding
  box and never gets an approximation of 4 to 8 points, so nothing is pushed for it.
\<close>

definition processContour :: "real \<Rightarrow> real \<Rightarrow> point list \<Rightarrow> boundary option option" where
  "processContour minArea maxArea contour =
     (if \<not> passesFilter minArea maxArea contour then Some None
      else
        (case chooseApprox contour of
           None \<Rightarrow> None
         | Some None \<Rightarrow> Some None
         | Some (Some bestApprox) \<Rightarrow>
             if 4 \<le> length bestApprox \<and> length bestApprox \<le> 8
             then (case getBoundingBox contour of
                     None \<Rightarrow> Some None
                   | Some bbox \<Rightarrow>
                       (let orderedPoints = (if length bestApprox = 4
                                             then orderQuadPoints bestApprox else bestApprox)
                        in Some (Some \<lparr>b_points = orderedPoints,
                                       b_area = calculateContourArea contour,
                                       b_aspectRatio = aspectRatioOf contour,
                                       b_numVertices = length bestApprox,
                                       b_boundingRect = bbox,
                                       b_isConvex = isConvex orderedPoints,
                                       b_type = None\<rparr>)))
             else Some None))"

fun collectBoundaries :: "real \<Rightarrow> real \<Rightarrow> point list list \<Rightarrow> boundary list \<Rightarrow> boundary list option" where
  "collectBoundaries minArea maxArea [] boundaries = Some boundaries"
| "collectBoundaries minArea maxArea (contour # rest) boundaries =
     (case processContour minArea maxArea contour of
        None \<Rightarrow> None
      | Some None \<Rightarrow> collectBoundaries minArea maxArea rest boundaries
      | Some (Some b) \<Rightarrow> collectBoundaries minArea maxArea rest (boundaries @ [b]))"

definition calculateIoU :: "rect \<Rightarrow> rect \<Rightarrow> jsnum" where
  "calculateIoU rect1 rect2 =
     (let x1 = max (rx rect1) (rx rect2);
          y1 = max (ry rect1) (ry rect2);
          x2 = min (rx rect1 + rwidth rect1) (rx rect2 + rwidth rect2);
          y2 = min (ry rect1 + rheight rect1) (ry rect2 + rheight rect2)
      in if x1 \<ge> x2 \<or> y1 \<ge> y2 then Num 0
         else (let interArea = (x2 - x1) * (y2 - y1);
                   area1 = rwidth rect1 * rheight rect1;
                   area2 = rwidth rect2 * rheight rect2;
                   unionArea = area1 + area2 - interArea
               in jsdiv (real_of_int interArea) (real_of_int unionArea)))"

text \<open>
  filterOverlapping. \<open>used\<close> is the set of suppressed indices; markOverlapping is the
  inner loop over \<open>j = i + 1 .. length - 1\<close>.
\<close>

definition markOverlapping :: "boundary list \<Rightarrow> real \<Rightarrow> nat \<Rightarrow> nat set \<Rightarrow> nat set" where
  "markOverlapping boundaries iouThreshold i used =
     foldl (\<lambda>used j.
        if j \<in> used then used
        else if jsgt (calculateIoU (b_boundingRect (boundaries ! i))
                        (b_boundingRect (boundaries ! j))) iouThreshold
             then insert j used else used)
       used [i + 1 ..< length boundaries]"

definition filterOverlapping :: "boundary list \<Rightarrow> real \<Rightarrow> boundary list" where
  "filterOverlapping boundaries iouThreshold =
     fst (foldl (\<lambda>(selected, used) i.
            if i \<in> used then (selected, used)
            else (selected @ [boundaries ! i], markOverlapping boundaries iouThreshold i used))
          ([], {}) [0 ..< length boundaries])"

text \<open>
  classifyDetections writes the field \<open>type\<close> of the boundary objects, also through the
  sorted copy of the list, which shares them. The model keeps the types by index into
  \<open>boundaries\<close> and sorts the indices: spreadTypes is the book-spread loop, and
  classifyDetections then gives every boundary without a type its default.
\<close>

definition spreadTypes :: "boundary list \<Rightarrow> string option list" where
  "spreadTypes boundaries =
     (let n = length boundaries;
          types0 = map b_type boundaries
      in if n \<ge> 2
         then (let sortedIdx = sort_key (\<lambda>k. rx (b_boundingRect (boundaries ! k))) [0 ..< n]
               in foldl (\<lambda>types i.
                    let l = sortedIdx ! i;
                        r = sortedIdx ! (i + 1);
                        left = b_boundingRect (boundaries ! l);
                        right = b_boundingRect (boundaries ! r);
                        gap = real_of_int (rx right - (rx left + rwidth left));
                        avgWidth = real_of_int (rwidth left + rwidth right) / 2;
                        heightDiff = real_of_int \<bar>rheight left - rheight right\<bar>;
                        avgHeight = real_of_int (rheight left + rheight right) / 2
                    in if gap < avgWidth * 0.3 \<and> heightDiff < avgHeight * 0.3
                       then (types[l := Some ''book-spread-left''])[r := Some ''book-spread-right'']
                       else types)
                    types0 [0 ..< n - 1])
         else types0)"

definition classifyDetections :: "boundary list \<Rightarrow> boundary list" where
  "classifyDetections boundaries =
     map (\<lambda>k. (boundaries ! k)\<lparr>b_type :=
            Some (case spreadTypes boundaries ! k of
                    Some t \<Rightarrow> t
                  | None \<Rightarrow> if length boundaries = 1 then ''single-document'' else ''document'')\<rparr>)
       [0 ..< length boundaries]"

section \<open>detectDocuments\<close>

text \<open>
  The options object: a field that is absent is \<open>None\<close> and gets its default in
  detectDocuments. Fields the code does not know are not modelled.
\<close>

record options =
  o_minAreaRatio :: "real option"
  o_maxAreaRatio :: "real option"
  o_edgeThreshold :: "real option"
  o_blurRadius :: "real option"

record stats =
  totalDetected :: nat
  processingPipeline :: "string list"

text \<open>
  The result object. The intermediate images are data URLs by stage name; \<open>stats\<close> is
  \<open>None\<close> for the empty object \<open>{}\<close>.
\<close>

record detectionResult =
  r_boundaries :: "boundary list"
  r_intermediate :: "string \<rightharpoonup> string"
  r_stats :: "stats option"

text \<open>
  detectDocuments from its step 7 on. Steps 1 to 6 (canvas access, grayscale, blur,
  Sobel, threshold, combination, dilate, erode) compute the buffer \<open>processed\<close> and the
  intermediate images in floating point; they are not modelled, and their results are
  arguments here, so that what is proved holds for every buffer they can produce. The
  result is \<open>None\<close> when approximatePolygon does not return.
\<close>

text \<open>The defaults of the destructuring \<open>minAreaRatio = 0.02, maxAreaRatio = 0.95\<close>.\<close>

definition minAreaRatioOf :: "options \<Rightarrow> real" where
  "minAreaRatioOf opts = (case o_minAreaRatio opts of None \<Rightarrow> 0.02 | Some v \<Rightarrow> v)"

definition maxAreaRatioOf :: "options \<Rightarrow> real" where
  "maxAreaRatioOf opts = (case o_maxAreaRatio opts of None \<Rightarrow> 0.95 | Some v \<Rightarrow> v)"

definition detectDocuments ::
  "options \<Rightarrow> nat \<Rightarrow> nat \<Rightarrow> nat list \<Rightarrow> (string \<rightharpoonup> string) \<Rightarrow> detectionResult option" where
  "detectDocuments opts width height processed intermediateImages =
     (let minAreaRatio = minAreaRatioOf opts;
          maxAreaRatio = maxAreaRatioOf opts;
          imageArea = real (width * height);
          minArea = imageArea * minAreaRatio;
          maxArea = imageArea * maxAreaRatio;
          contours = findContours processed width height
      in case collectBoundaries minArea maxArea contours [] of
           None \<Rightarrow> None
         | Some boundaries \<Rightarrow>
             (let sortedBoundaries = sort_key (\<lambda>b. - b_area b) boundaries;
                  filtered = classifyDetections (filterOverlapping sortedBoundaries 0.5)
              in Some \<lparr>r_boundaries = filtered,
                       r_intermediate = intermediateImages,
                       r_stats = Some \<lparr>totalDetected = length filtered,
                                        processingPipeline = [''grayscale'', ''blur'', ''edges'',
                                          ''threshold'', ''contours'', ''filter'']\<rparr>\<rparr>))"

section \<open>detectDocumentsEnhanced\<close>

definition strategies :: "options \<Rightarrow> options list" where
  "strategies baseOptions =
     [baseOptions,
      baseOptions\<lparr>o_edgeThreshold := Some 30, o_minAreaRatio := Some 0.03\<rparr>,
      baseOptions\<lparr>o_edgeThreshold := Some 70, o_blurRadius := Some 3\<rparr>,
      baseOptions\<lparr>o_minAreaRatio := Some 0.01, o_maxAreaRatio := Some 0.98\<rparr>]"

definition emptyResult :: detectionResult where
  "emptyResult = \<lparr>r_boundaries = [], r_intermediate = Map.empty, r_stats = None\<rparr>"

text \<open>
  \<open>quads.length > 0\<close> for a result, and a run that gives no quadrilateral: it throws
  or its result has none.
\<close>

definition hasQuad :: "detectionResult \<Rightarrow> bool" where
  "hasQuad result = list_ex (\<lambda>b. b_numVertices b = 4) (r_boundaries result)"

definition noQuadRun :: "(options \<Rightarrow> 'e + detectionResult) \<Rightarrow> options \<Rightarrow> bool" where
  "noQuadRun detect strategy = (case detect strategy of Inl e \<Rightarrow> True | Inr r \<Rightarrow> \<not> hasQuad r)"

text \<open>
  The loop over the strategies. The single run \<open>detect\<close> is a parameter: it returns a
  result (\<open>Inr\<close>) or throws (\<open>Inl\<close>), and the loop depends on nothing else. The list
  \<open>calls\<close> records the option sets \<open>detect\<close> was called with, in order; the source has
  no such list, it is there to state which runs were executed.
\<close>

fun runStrategies ::
  "(options \<Rightarrow> 'e + detectionResult) \<Rightarrow> options list \<Rightarrow> detectionResult \<Rightarrow> nat \<Rightarrow> options list
     \<Rightarrow> detectionResult \<times> options list" where
  "runStrategies detect [] bestResult maxQuads calls = (bestResult, calls)"
| "runStrategies detect (strategy # rest) bestResult maxQuads calls =
     (case detect strategy of
        Inl e \<Rightarrow> runStrategies detect rest bestResult maxQuads (calls @ [strategy])
      | Inr result \<Rightarrow>
          (let quads = filter (\<lambda>b. b_numVertices b = 4) (r_boundaries result);
               maxQuads1 = (if length quads > maxQuads then length quads else maxQuads);
               bestResult1 = (if length quads > maxQuads then result else bestResult)
           in if length quads > 0 then (result, calls @ [strategy])
              else runStrategies detect rest
                     (if length (r_boundaries result) > length (r_boundaries bestResult1)
                      then result else bestResult1)
                     maxQuads1 (calls @ [strategy])))"

definition detectDocumentsEnhanced ::
  "(options \<Rightarrow> 'e + detectionResult) \<Rightarrow> options \<Rightarrow> detectionResult \<times> options list" where
  "detectDocumentsEnhanced detect baseOptions =
     runStrategies detect (strategies baseOptions) emptyResult 0 []"

section \<open>Overlap filtering as a recursion on the list\<close>

text \<open>
  The test of the inner loop of filterOverlapping on two boundaries, and the filter
  written as a recursion: keep the head, drop from the tail what overlaps it, go on with
  what is left. \<open>remaining\<close> are the boundaries from index \<open>i\<close> on that are not
  suppressed. They serve to reason about filterOverlapping, which is shown to compute
  \<open>suppress\<close>.
\<close>

definition overlaps :: "real \<Rightarrow> boundary \<Rightarrow> boundary \<Rightarrow> bool" where
  "overlaps iouThreshold a b =
     jsgt (calculateIoU (b_boundingRect a) (b_boundingRect b)) iouThreshold"

function suppress :: "real \<Rightarrow> boundary list \<Rightarrow> boundary list" where
  "suppress iouThreshold [] = []"
| "suppress iouThreshold (b # bs) =
     b # suppress iouThreshold (filter (\<lambda>c. \<not> overlaps iouThreshold b c) bs)"
  by pat_completeness auto
termination
  by (relation "measure (\<lambda>(iouThreshold, bs). length bs)") (auto simp: less_Suc_eq_le)

definition remaining :: "boundary list \<Rightarrow> nat set \<Rightarrow> nat \<Rightarrow> boundary list" where
  "remaining bs used i = map (\<lambda>k. bs ! k) (filter (\<lambda>k. k \<notin> used) [i ..< length bs])"

section \<open>The choice of the approximation, stated on the five approximations\<close>

text \<open>
  The sweep as a loop over the approximations already computed, to reason about it.
\<close>

fun sweepList :: "point list list \<Rightarrow> point list option \<Rightarrow> point list option" where
  "sweepList [] bestApprox = bestApprox"
| "sweepList (approx # rest) bestApprox =
     (if length approx = 4 then Some approx
      else sweepList rest
             (if 4 \<le> length approx \<and> length approx \<le> 8
                 \<and> (case bestApprox of
                       None \<Rightarrow> True
                     | Some best \<Rightarrow> \<bar>int (length approx) - 4\<bar> < \<bar>int (length best) - 4\<bar>)
              then Some approx else bestApprox))"

text \<open>
  The rule the code implements, in the words of the specification with its third case
  widened. \<open>pickBest\<close>: among the approximations with 4 to 8 vertices, the one whose
  vertex count is closest to 4, the earliest on a tie. \<open>chooseSpec\<close>: an approximation
  with exactly 4 vertices wins, the first one; otherwise \<open>pickBest\<close> is kept when it
  has at most 6 vertices; otherwise (nothing in range, or 7 or 8 vertices) the corner
  search decides when it returns exactly 4 corners, and else what was kept stays.
\<close>

definition vertexKey :: "point list \<Rightarrow> int" where
  "vertexKey a = \<bar>int (length a) - 4\<bar>"

definition pickBest :: "point list list \<Rightarrow> point list option" where
  "pickBest approxs =
     (case filter (\<lambda>a. 4 \<le> length a \<and> length a \<le> 8) approxs of
        [] \<Rightarrow> None
      | c # cs \<Rightarrow> Some (arg_min_list vertexKey (c # cs)))"

definition chooseSpec :: "point list list \<Rightarrow> point list \<Rightarrow> point list option" where
  "chooseSpec approxs corners =
     (case find (\<lambda>a. length a = 4) approxs of
        Some a \<Rightarrow> Some a
      | None \<Rightarrow>
          (case pickBest approxs of
             Some b \<Rightarrow> if length b \<le> 6 then Some b
                       else if length corners = 4 then Some corners else Some b
           | None \<Rightarrow> if length corners = 4 then Some corners else None))"

section \<open>The order of the corners, in the words of the specification\<close>

text \<open>
  The specification orders the four points by the angle of each point seen from their
  centroid, counterclockwise from the positive x-axis. Here the centroid is the mean of
  the points, and the angle of the vector \<open>(x - cx, y - cy)\<close> is the principal argument
  \<open>Arg\<close> of the complex number \<open>x - cx + i (y - cy)\<close>: the angle in the interval from
  \<open>-pi\<close> (excluded) to \<open>pi\<close> whose cosine and sine give the direction of the vector, and
  0 for the zero vector. None of this refers to the definitions made from the code.
\<close>

definition specCentroid :: "point list \<Rightarrow> real \<times> real" where
  "specCentroid pts =
     (real_of_int (sum_list (map fst pts)) / real (length pts),
      real_of_int (sum_list (map snd pts)) / real (length pts))"

definition specAngle :: "point list \<Rightarrow> point \<Rightarrow> real" where
  "specAngle pts p =
     Arg (Complex (real_of_int (fst p) - fst (specCentroid pts))
                  (real_of_int (snd p) - snd (specCentroid pts)))"

text \<open>
  \<open>pts\<close> are the points \<open>approx\<close> sorted by that angle, ascending, then rotated so that
  a point with the least \<open>x + y\<close> comes first.
\<close>

definition coordSum :: "point \<Rightarrow> int" where
  "coordSum p = fst p + snd p"

definition orderedQuadSpec :: "point list \<Rightarrow> point list \<Rightarrow> bool" where
  "orderedQuadSpec approx pts =
     (\<exists>sortedPts k. mset sortedPts = mset approx
        \<and> sorted (map (specAngle approx) sortedPts)
        \<and> k < 4 \<and> pts = rotate k sortedPts
        \<and> (\<forall>p \<in> set approx. coordSum (hd pts) \<le> coordSum p))"

section \<open>Straight points of the corner search\<close>

text \<open>
  The curvature that findCorners gives a sample is \<open>pi\<close> minus the angle between the
  vector from the sample 3 places before to it and the vector from it to the sample 3
  places after. It is largest, \<open>pi\<close>, exactly where the two vectors point the same way:
  their cross product is 0 and their dot product positive. \<open>straightAt\<close> is that test on
  the integers, with the indices of findCorners; it is used to evaluate findCorners on
  concrete contours.
\<close>

definition straightAt :: "point list \<Rightarrow> nat \<Rightarrow> nat \<Rightarrow> bool" where
  "straightAt sampledPoints windowSize i =
     (let n = length sampledPoints;
          prev = sampledPoints ! nat ((int i - int windowSize + int n) mod int n);
          curr = sampledPoints ! i;
          next = sampledPoints ! ((i + windowSize) mod n);
          v1x = fst curr - fst prev;
          v1y = snd curr - snd prev;
          v2x = fst next - fst curr;
          v2y = snd next - snd curr
      in 0 < v1x * v2x + v1y * v2y \<and> v1x * v2y - v1y * v2x = 0)"

section \<open>Distances on the integers\<close>

text \<open>
  The distance of pointToLineDistance is the square root of a quotient of two integers:
  \<open>sqScaled\<close> is the squared distance times the squared length of the chord
  (\<open>chordLen2\<close>, 1 for a chord of length 0), and \<open>maxScaled\<close> is the search loop of
  approximatePolygon on these integers. They are used to evaluate approximatePolygon on
  concrete contours.
\<close>

definition chordLen2 :: "point \<Rightarrow> point \<Rightarrow> int" where
  "chordLen2 a b =
     (let dx = fst b - fst a; dy = snd b - snd a; len2 = dx * dx + dy * dy
      in if len2 = 0 then 1 else len2)"

definition sqScaled :: "point \<Rightarrow> point \<Rightarrow> point \<Rightarrow> int" where
  "sqScaled pt a b =
     (let dx = fst b - fst a; dy = snd b - snd a;
          u = fst pt - fst a; v = snd pt - snd a;
          len2 = dx * dx + dy * dy;
          n = u * dx + v * dy
      in if len2 = 0 then u * u + v * v
         else if n \<le> 0 then (u * u + v * v) * len2
         else if len2 \<le> n
              then ((fst pt - fst b) * (fst pt - fst b) + (snd pt - snd b) * (snd pt - snd b)) * len2
              else (u * dy - v * dx) * (u * dy - v * dx))"

definition maxScaled :: "point list \<Rightarrow> int \<times> nat" where
  "maxScaled contour =
     foldl (\<lambda>(maxSq, maxIdx) i.
        let d = sqScaled (contour ! i) (contour ! 0) (contour ! (length contour - 1))
        in if d > maxSq then (d, i) else (maxSq, maxIdx))
       (0, 0) [1 ..< length contour - 1]"

section \<open>Concrete inputs\<close>

definition maskB :: "nat list" where
  "maskB = [255, 255, 255,   0, 255,
            255,   0, 255,   0, 255,
            255,   0,   0,   0, 255,
              0, 255, 255, 255,   0]"

definition contourB :: "point list" where
  "contourB = [(2, 1), (2, 0), (1, 0), (0, 1), (0, 2), (1, 3), (2, 3), (3, 3), (4, 2), (4, 1),
               (4, 0), (4, 1), (4, 2), (3, 3), (2, 3), (1, 3), (0, 2), (0, 1), (0, 0), (1, 0)]"

definition visitedB :: "nat list" where
  "visitedB = [1, 1, 1, 0, 1, 1, 0, 1, 0, 1, 1, 0, 0, 0, 1, 0, 1, 1, 1, 0]"

text \<open>Runs of detectDocuments for the strategy loop, over the empty options object.\<close>

definition baseW :: options where
  "baseW = \<lparr>o_minAreaRatio = None, o_maxAreaRatio = None, o_edgeThreshold = None, o_blurRadius = None\<rparr>"

text \<open>
  Two more option sets: the areas allowed by the fourth strategy, and a lower area limit
  of half the image.
\<close>

definition wideW :: options where
  "wideW = \<lparr>o_minAreaRatio = Some 0.01, o_maxAreaRatio = Some 0.98,
             o_edgeThreshold = None, o_blurRadius = None\<rparr>"

definition narrowW :: options where
  "narrowW = \<lparr>o_minAreaRatio = Some 0.5, o_maxAreaRatio = None,
               o_edgeThreshold = None, o_blurRadius = None\<rparr>"

definition stagesW :: "string \<rightharpoonup> string" where
  "stagesW = [''grayscale'' \<mapsto> ''data:image/png;base64,G'', ''edges'' \<mapsto> ''data:image/png;base64,E'',
              ''threshold'' \<mapsto> ''data:image/png;base64,T'', ''processed'' \<mapsto> ''data:image/png;base64,P'']"

definition statsW :: "nat \<Rightarrow> stats option" where
  "statsW n = Some \<lparr>totalDetected = n, processingPipeline =
      [''grayscale'', ''blur'', ''edges'', ''threshold'', ''contours'', ''filter'']\<rparr>"

definition noneResultW :: detectionResult where
  "noneResultW = \<lparr>r_boundaries = [], r_intermediate = stagesW, r_stats = statsW 0\<rparr>"

definition quadW :: boundary where
  "quadW = \<lparr>b_points = [(2, 2), (9, 2), (9, 9), (2, 9)], b_area = 49, b_aspectRatio = Num 1,
             b_numVertices = 4, b_boundingRect = \<lparr>rx = 2, ry = 2, rwidth = 7, rheight = 7\<rparr>,
             b_isConvex = True, b_type = Some ''single-document''\<rparr>"

definition quadResultW :: detectionResult where
  "quadResultW = \<lparr>r_boundaries = [quadW], r_intermediate = stagesW, r_stats = statsW 1\<rparr>"

text \<open>
  A run that finds nothing with the base options, throws at edgeThreshold 30 and finds a
  quadrilateral at edgeThreshold 70.
\<close>

definition detectW :: "options \<Rightarrow> string + detectionResult" where
  "detectW opts =
     (if o_edgeThreshold opts = Some 70 then Inr quadResultW
      else if o_edgeThreshold opts = Some 30 then Inl ''RangeError''
      else Inr noneResultW)"

text \<open>
  The run of detectDocuments on an image of 8 by 8 black pixels. Every stage of the
  pipeline maps a buffer of zeros to a buffer of zeros (the gray value, the weighted mean
  of the blur and the Sobel magnitude of zeros are 0, no pixel is below its local mean
  minus 5, and dilating and eroding zeros gives zeros), so the buffer \<open>processed\<close> is
  \<open>maskZ\<close> whatever the options are.
\<close>

definition maskZ :: "nat list" where
  "maskZ = replicate 64 0"

definition detectBlack :: "options \<Rightarrow> string + detectionResult" where
  "detectBlack opts =
     (case detectDocuments opts 8 8 maskZ stagesW of
        None \<Rightarrow> Inl ''no result''
      | Some result \<Rightarrow> Inr result)"

text \<open>
  Three boundaries for the overlap filter, largest first: the second lies almost on the
  first (IoU 81/100), the third is apart from both.
\<close>

definition boxW :: "int \<Rightarrow> int \<Rightarrow> int \<Rightarrow> int \<Rightarrow> boundary" where
  "boxW x0 y0 w h =
     \<lparr>b_points = [(x0, y0), (x0 + w, y0), (x0 + w, y0 + h), (x0, y0 + h)],
      b_area = real_of_int (w * h), b_aspectRatio = jsdiv (real_of_int w) (real_of_int h),
      b_numVertices = 4, b_boundingRect = \<lparr>rx = x0, ry = y0, rwidth = w, rheight = h\<rparr>,
      b_isConvex = True, b_type = None\<rparr>"

definition overlapW :: "boundary list" where
  "overlapW = [boxW 0 0 10 10, boxW 1 0 9 9, boxW 20 0 8 8]"

text \<open>
  A mask of 14 by 7 pixels with one white region, its contour and the approximation that
  approximatePolygon finds for it at all five epsilon factors.
\<close>

definition maskL :: "nat list" where
  "maskL = [0, 0,   0,   0,   0,   0,   0,   0,   0,   0,   0,   0,   0,   0,
            0, 0,   0,   0,   0,   0,   0,   0,   255, 255, 255, 255, 255, 0,
            0, 255, 255, 255, 255, 255, 255, 255, 255, 255, 255, 255, 255, 0,
            0, 255, 255, 255, 255, 255, 255, 255, 255, 255, 255, 255, 255, 0,
            0, 255, 255, 255, 255, 255, 255, 255, 255, 255, 255, 255, 0,   0,
            0, 255, 255, 255, 255, 255, 255, 255, 255, 255, 0,   0,   0,   0,
            0, 0,   0,   0,   0,   0,   0,   0,   0,   0,   0,   0,   0,   0]"

definition contourL :: "point list" where
  "contourL = [(8, 1), (9, 1), (10, 1), (11, 1), (12, 1), (12, 2), (12, 3), (11, 4), (10, 4),
               (9, 5), (8, 5), (7, 5), (6, 5), (5, 5), (4, 5), (3, 5), (2, 5), (1, 5), (1, 4),
               (1, 3), (1, 2), (2, 2), (3, 2), (4, 2), (5, 2), (6, 2), (7, 2)]"

definition approxL :: "point list" where
  "approxL = [(8, 1), (12, 1), (12, 3), (9, 5), (1, 5), (1, 2), (7, 2)]"

text \<open>
  The corners that the corner search finds on \<open>contourL\<close> (its only four samples with
  the largest curvature), and the result of detectDocuments on \<open>maskL\<close>: one boundary
  of 4 vertices, the corners in the order of orderQuadPoints.
\<close>

definition cornersL :: "point list" where
  "cornersL = [(6, 5), (5, 5), (4, 5), (4, 2)]"

definition boundaryL :: boundary where
  "boundaryL = \<lparr>b_points = [(4, 2), (6, 5), (5, 5), (4, 5)], b_area = 69 / 2,
                 b_aspectRatio = Num (11 / 4), b_numVertices = 4,
                 b_boundingRect = \<lparr>rx = 1, ry = 1, rwidth = 11, rheight = 4\<rparr>,
                 b_isConvex = True,
                 b_type = Some ''single-document''\<rparr>"

definition resultL :: detectionResult where
  "resultL = \<lparr>r_boundaries = [boundaryL], r_intermediate = stagesW, r_stats = statsW 1\<rparr>"

text \<open>
  A mask of 13 by 3 pixels with a white line of 11 pixels: its contour runs along the
  line and back, 20 points in a bounding box of height 0.
\<close>

definition maskLine :: "nat list" where
  "maskLine = [0, 0,   0,   0,   0,   0,   0,   0,   0,   0,   0,   0,   0,
               0, 255, 255, 255, 255, 255, 255, 255, 255, 255, 255, 255, 0,
               0, 0,   0,   0,   0,   0,   0,   0,   0,   0,   0,   0,   0]"

definition contourLine :: "point list" where
  "contourLine = [(1, 1), (2, 1), (3, 1), (4, 1), (5, 1), (6, 1), (7, 1), (8, 1), (9, 1), (10, 1),
                  (11, 1), (10, 1), (9, 1), (8, 1), (7, 1), (6, 1), (5, 1), (4, 1), (3, 1), (2, 1)]"

section \<open>Properties of the contour tracer\<close>

lemma offset_nonzero: "d < 8 \<Longrightarrow> dxs ! d \<noteq> 0 \<or> dys ! d \<noteq> 0"
proof -
  assume "d < 8"
  then have "d \<in> {0, 1, 2, 3, 4, 5, 6, 7}" by auto
  then show ?thesis by (auto simp: dxs_def dys_def)
qed

lemma findNext_Some:
  "findNext data width height x y startDir i = Some (nx, ny, d) \<Longrightarrow>
     white data width height (nx, ny) \<and> (nx, ny) \<noteq> (x, y)"
proof (induction data width height x y startDir i rule: findNext.induct)
  case (1 data width height x y startDir i)
  show ?case
  proof (cases "i < 8")
    case False
    with "1.prems" show ?thesis by (simp add: findNext.simps)
  next
    case True
    let ?c = "(startDir + i) mod 8"
    have c8: "?c < 8" by simp
    show ?thesis
    proof (cases "0 \<le> x + dxs ! ?c \<and> x + dxs ! ?c < int width \<and> 0 \<le> y + dys ! ?c
                   \<and> y + dys ! ?c < int height
                   \<and> rd data ((y + dys ! ?c) * int width + (x + dxs ! ?c)) = Some 255")
      case hit: True
      with True "1.prems" have eq: "nx = x + dxs ! ?c" "ny = y + dys ! ?c"
        by (auto simp add: findNext.simps [of data width height x y startDir i] Let_def)
      from offset_nonzero [OF c8] eq have "(nx, ny) \<noteq> (x, y)" by auto
      with hit eq show ?thesis by (simp add: white_def)
    next
      case miss: False
      with True "1.prems" have "findNext data width height x y startDir (i + 1) = Some (nx, ny, d)"
        by (simp add: findNext.simps [of data width height x y startDir i] Let_def)
      with "1.IH" [OF True refl refl refl miss] show ?thesis by simp
    qed
  qed
qed


lemma findNext_dims:
  "findNext data width height x y startDir i = Some r \<Longrightarrow> 0 < width * height"
proof -
  assume a: "findNext data width height x y startDir i = Some r"
  obtain nx ny d where "r = (nx, ny, d)" by (cases r) auto
  with a findNext_Some [of data width height x y startDir i nx ny d]
  have "white data width height (nx, ny)" by simp
  then have "0 < int width" "0 < int height" by (auto simp: white_def)
  then show ?thesis by simp
qed

lemma traceLoop_shape:
  "traceLoop data width height startX startY x y dir iterations contour visited = (c, v, ex) \<Longrightarrow>
     \<exists>ys. c = contour @ (x, y) # ys \<and> (\<forall>p \<in> set ys. white data width height p)
          \<and> (ys \<noteq> [] \<longrightarrow> hd ys \<noteq> (x, y))"
proof (induction data width height startX startY x y dir iterations contour visited
       arbitrary: c v ex rule: traceLoop.induct)
  case (1 data width height startX startY x y dir iterations contour visited)
  let ?f = "findNext data width height x y ((dir + 6) mod 8) 0"
  show ?case
  proof (cases ?f)
    case None
    with "1.prems" have "c = contour @ [(x, y)]"
      by (simp add: traceLoop.simps [of data width height startX startY x y] Let_def)
    then show ?thesis by simp
  next
    case (Some r)
    obtain nx ny d where r: "r = (nx, ny, d)" by (cases r) auto
    from Some r findNext_Some have w: "white data width height (nx, ny)" and ne: "(nx, ny) \<noteq> (x, y)"
      by blast+
    show ?thesis
    proof (cases "(nx \<noteq> startX \<or> ny \<noteq> startY) \<and> iterations + 1 < width * height")
      case False
      with Some r "1.prems" have "c = contour @ [(x, y)]"
        by (auto simp add: traceLoop.simps [of data width height startX startY x y] Let_def)
      then show ?thesis by simp
    next
      case True
      with Some r "1.prems"
      have rec: "traceLoop data width height startX startY nx ny d (iterations + 1)
                   (contour @ [(x, y)]) (visited[nat (y * int width + x) := 1]) = (c, v, ex)"
        by (auto simp add: traceLoop.simps [of data width height startX startY x y] Let_def)
      from "1.IH" [OF refl refl Some [unfolded r] refl refl True rec]
      obtain ys where ys: "c = (contour @ [(x, y)]) @ (nx, ny) # ys"
        "\<forall>p \<in> set ys. white data width height p" by blast
      have "c = contour @ (x, y) # ((nx, ny) # ys)" using ys(1) by simp
      moreover have "\<forall>p \<in> set ((nx, ny) # ys). white data width height p" using ys(2) w by simp
      moreover have "hd ((nx, ny) # ys) \<noteq> (x, y)" using ne by simp
      ultimately show ?thesis by blast
    qed
  qed
qed

lemma traceLoop_budget_length:
  "traceLoop data width height startX startY x y dir iterations contour visited = (c, v, Budget) \<Longrightarrow>
     iterations < width * height \<Longrightarrow> length c + iterations = length contour + width * height"
proof (induction data width height startX startY x y dir iterations contour visited
       arbitrary: c v rule: traceLoop.induct)
  case (1 data width height startX startY x y dir iterations contour visited)
  let ?f = "findNext data width height x y ((dir + 6) mod 8) 0"
  show ?case
  proof (cases ?f)
    case None
    with "1.prems" show ?thesis
      by (simp add: traceLoop.simps [of data width height startX startY x y] Let_def)
  next
    case (Some r)
    obtain nx ny d where r: "r = (nx, ny, d)" by (cases r) auto
    show ?thesis
    proof (cases "(nx \<noteq> startX \<or> ny \<noteq> startY) \<and> iterations + 1 < width * height")
      case False
      with Some r "1.prems" have "c = contour @ [(x, y)]" "\<not> iterations + 1 < width * height"
        by (auto simp add: traceLoop.simps [of data width height startX startY x y] Let_def
                 split: if_splits)
      with "1.prems"(2) show ?thesis by simp
    next
      case True
      with Some r "1.prems"
      have rec: "traceLoop data width height startX startY nx ny d (iterations + 1)
                   (contour @ [(x, y)]) (visited[nat (y * int width + x) := 1]) = (c, v, Budget)"
        by (auto simp add: traceLoop.simps [of data width height startX startY x y] Let_def)
      from "1.IH" [OF refl refl Some [unfolded r] refl refl True rec] True
      show ?thesis by simp
    qed
  qed
qed

lemma traceLoop_budget_dims:
  "traceLoop data width height startX startY x y dir iterations contour visited = (c, v, Budget) \<Longrightarrow>
     0 < width * height"
proof -
  assume a: "traceLoop data width height startX startY x y dir iterations contour visited = (c, v, Budget)"
  have "findNext data width height x y ((dir + 6) mod 8) 0 \<noteq> None"
  proof
    assume "findNext data width height x y ((dir + 6) mod 8) 0 = None"
    with a show False
      by (simp add: traceLoop.simps [of data width height startX startY x y] Let_def)
  qed
  then show ?thesis using findNext_dims by blast
qed


lemma foldl_scanPixel_inv:
  assumes "\<forall>c \<in> set contours. P c"
      and "\<And>p vis c vis'. p \<in> set ps \<Longrightarrow> startsTrace data vis width (fst p) (snd p) \<Longrightarrow>
             traceContour data vis width height (fst p) (snd p) = (c, vis') \<Longrightarrow> 20 \<le> length c \<Longrightarrow> P c"
  shows "\<forall>c \<in> set (snd (foldl (\<lambda>st p. scanPixel data width height p st) (visited, contours) ps)). P c"
  using assms
proof (induction ps arbitrary: visited contours)
  case Nil
  then show ?case by simp
next
  case (Cons p ps)
  obtain x y where p: "p = (x, y)" by (cases p) auto
  obtain vis1 cs1 where st: "scanPixel data width height p (visited, contours) = (vis1, cs1)"
    by (cases "scanPixel data width height p (visited, contours)") auto
  have "\<forall>c \<in> set cs1. P c"
  proof (cases "startsTrace data visited width x y")
    case False
    with st p Cons.prems(1) show ?thesis by (auto simp: scanPixel_def)
  next
    case True
    obtain c vis' where tc: "traceContour data visited width height x y = (c, vis')"
      by (cases "traceContour data visited width height x y") auto
    from Cons.prems(2) [of p visited c vis'] True tc p have "20 \<le> length c \<Longrightarrow> P c" by simp
    with st p True tc Cons.prems(1) show ?thesis by (auto simp: scanPixel_def split: if_splits)
  qed
  moreover have "\<And>q vis c vis'. q \<in> set ps \<Longrightarrow> startsTrace data vis width (fst q) (snd q) \<Longrightarrow>
             traceContour data vis width height (fst q) (snd q) = (c, vis') \<Longrightarrow> 20 \<le> length c \<Longrightarrow> P c"
  proof -
    fix q vis c vis'
    assume "q \<in> set ps" "startsTrace data vis width (fst q) (snd q)"
      "traceContour data vis width height (fst q) (snd q) = (c, vis')" "20 \<le> length c"
    then show "P c" using Cons.prems(2) [of q vis c vis'] by simp
  qed
  ultimately have "\<forall>c \<in> set (snd (foldl (\<lambda>st p. scanPixel data width height p st) (vis1, cs1) ps)). P c"
    by (rule Cons.IH)
  with st show ?case by simp
qed

lemma scanOrder_interior:
  "p \<in> set (scanOrder width height) \<Longrightarrow>
     1 \<le> fst p \<and> fst p \<le> int width - 2 \<and> 1 \<le> snd p \<and> snd p \<le> int height - 2"
  by (auto simp: scanOrder_def)

lemma findContours_tracedFrom:
  "\<forall>c \<in> set (findContours data width height). tracedFrom data width height c"
  unfolding findContours_def
proof (rule foldl_scanPixel_inv)
  show "\<forall>c \<in> set []. tracedFrom data width height c" by simp
next
  fix p vis c vis'
  assume p: "p \<in> set (scanOrder width height)"
    and st: "startsTrace data vis width (fst p) (snd p)"
    and tc: "traceContour data vis width height (fst p) (snd p) = (c, vis')"
    and len: "20 \<le> length c"
  obtain x y where xy: "p = (x, y)" by (cases p) auto
  from scanOrder_interior [OF p] xy
  have inner: "1 \<le> x" "x \<le> int width - 2" "1 \<le> y" "y \<le> int height - 2" by simp_all
  from st xy have w255: "rd data (y * int width + x) = Some 255"
    and l0: "rd data (y * int width + x - 1) = Some 0"
    by (simp_all add: startsTrace_def Let_def)
  from inner w255 have ws: "white data width height (x, y)" by (simp add: white_def)
  from tc xy obtain ex where "traceLoop data width height x y x y 0 0 [] vis = (c, vis', ex)"
    by (auto simp: traceContour_def split: prod.splits)
  from traceLoop_shape [OF this] obtain ys where ys: "c = (x, y) # ys"
    "\<forall>p \<in> set ys. white data width height p" "ys \<noteq> [] \<longrightarrow> hd ys \<noteq> (x, y)" by auto
  from len ys(1) obtain q zs where zs: "ys = q # zs" by (cases ys) auto
  with ys(3) have "q \<noteq> (x, y)" by simp
  moreover have "\<forall>p \<in> set c. white data width height p" using ys(1,2) ws by simp
  ultimately show "tracedFrom data width height c"
    unfolding tracedFrom_def using ys(1) zs len inner l0 by auto
qed


lemma maskB_trace:
  "traceLoop maskB 5 4 2 1 2 1 0 0 [] (replicate 20 0) = (contourB, visitedB, Budget)"
  by code_simp

lemma maskB_start: "startsTrace maskB (replicate 20 0) 5 2 1"
  by code_simp

lemma maskB_contours: "findContours maskB 5 4 = [contourB]"
  by code_simp

text \<open>
  Claim C10. Every point of every contour returned by findContours lies inside the image
  and the mask holds 255 there; the first point of the contour is the scan-start pixel: it
  lies in the interior range \<open>1 \<le> x \<le> W - 2\<close>, \<open>1 \<le> y \<le> H - 2\<close> and the mask holds 0 to
  its left. This holds for every buffer, binary or not.
\<close>

theorem findContours_points_white:
  assumes "c \<in> set (findContours data width height)" and "p \<in> set c"
  shows "0 \<le> fst p \<and> fst p < int width \<and> 0 \<le> snd p \<and> snd p < int height
         \<and> rd data (snd p * int width + fst p) = Some 255
         \<and> 1 \<le> fst (hd c) \<and> fst (hd c) \<le> int width - 2
         \<and> 1 \<le> snd (hd c) \<and> snd (hd c) \<le> int height - 2
         \<and> rd data (snd (hd c) * int width + fst (hd c) - 1) = Some 0"
proof -
  from assms(1) findContours_tracedFrom have "tracedFrom data width height c" by blast
  then obtain s q ys where c: "c = s # q # ys"
    and w: "\<forall>p \<in> set c. white data width height p"
    and s: "1 \<le> fst s" "fst s \<le> int width - 2" "1 \<le> snd s" "snd s \<le> int height - 2"
           "rd data (snd s * int width + fst s - 1) = Some 0"
    unfolding tracedFrom_def by blast
  from w assms(2) have "white data width height p" by blast
  with c s show ?thesis by (simp add: white_def)
qed

text \<open>Claim C10 at the mask \<open>maskB\<close> (5 by 4), its contour and the point (4, 2).\<close>

theorem findContours_points_white_witness:
  "contourB \<in> set (findContours maskB 5 4) \<and> (4, 2) \<in> set contourB
   \<and> rd maskB (2 * 5 + 4) = Some 255 \<and> hd contourB = (2, 1) \<and> rd maskB (1 * 5 + 2 - 1) = Some 0"
proof -
  have m: "contourB \<in> set (findContours maskB 5 4)" by (simp add: maskB_contours)
  have p: "(4, 2) \<in> set contourB" by (simp add: contourB_def)
  have h: "hd contourB = (2, 1)" by (simp add: contourB_def)
  from findContours_points_white [OF m p] m p h show ?thesis by simp
qed

text \<open>
  Claim C4, as the code has it. traceContour returns the contour whichever way its loop
  ended, and findContours applies the minimum of 20 points only. A trace that exhausts the
  budget of \<open>W * H\<close> iterations without coming back to its start has pushed exactly
  \<open>W * H\<close> points; it is appended to the contour list exactly when \<open>20 \<le> W * H\<close>,
  and the scan goes on with the next pixel on the updated visited buffer.
\<close>

theorem budget_exhausted_contour_kept:
  assumes "startsTrace data visited width x y"
      and "traceLoop data width height x y x y 0 0 [] visited = (contour, visited', Budget)"
  shows "length contour = width * height
         \<and> foldl (\<lambda>st p. scanPixel data width height p st) (visited, contours) ((x, y) # rest)
           = foldl (\<lambda>st p. scanPixel data width height p st)
               (visited', if 20 \<le> width * height then contours @ [contour] else contours) rest"
proof -
  from assms(2) have "0 < width * height" by (rule traceLoop_budget_dims)
  with traceLoop_budget_length [OF assms(2)] have len: "length contour = width * height" by simp
  from assms(2) have "traceContour data visited width height x y = (contour, visited')"
    by (simp add: traceContour_def)
  with assms(1) len show ?thesis by (simp add: scanPixel_def)
qed

text \<open>Claim C4 as amended, at the mask \<open>maskB\<close> and its scan-start pixel (2, 1).\<close>

theorem budget_exhausted_contour_kept_witness:
  "startsTrace maskB (replicate 20 0) 5 2 1
   \<and> traceLoop maskB 5 4 2 1 2 1 0 0 [] (replicate 20 0) = (contourB, visitedB, Budget)
   \<and> length contourB = 5 * 4
   \<and> foldl (\<lambda>st p. scanPixel maskB 5 4 p st) (replicate 20 0, []) [(2, 1), (3, 1)]
     = foldl (\<lambda>st p. scanPixel maskB 5 4 p st) (visitedB, [contourB]) [(3, 1)]"
  using budget_exhausted_contour_kept [OF maskB_start maskB_trace, of "[]" "[(3, 1)]"]
        maskB_start maskB_trace
  by simp

text \<open>
  Claim C4 as stated fails: on \<open>maskB\<close> the trace started at (2, 1) runs out of budget
  (it walks back and forth along the thin arc and never steps on (2, 1) again), and its 20
  points are the contour that findContours returns.
\<close>

theorem budget_exhausted_contour_discarded_counterexample:
  "startsTrace maskB (replicate 20 0) 5 2 1
   \<and> snd (snd (traceLoop maskB 5 4 2 1 2 1 0 0 [] (replicate 20 0))) = Budget
   \<and> fst (traceLoop maskB 5 4 2 1 2 1 0 0 [] (replicate 20 0)) \<in> set (findContours maskB 5 4)"
  using maskB_start maskB_trace maskB_contours by simp

section \<open>Properties of the strategy loop\<close>

lemma quads_empty_iff:
  "(length (filter (\<lambda>b. b_numVertices b = 4) (r_boundaries r)) > 0) = hasQuad r"
  by (auto simp: hasQuad_def list_ex_iff filter_empty_conv)

lemma runStrategies_skip:
  "\<forall>s \<in> set pre. noQuadRun detect s \<Longrightarrow>
     \<exists>best' mq'. runStrategies detect (pre @ rest) best mq calls
                  = runStrategies detect rest best' mq' (calls @ pre)"
proof (induction pre arbitrary: best mq calls)
  case Nil
  show ?case by auto
next
  case (Cons s pre)
  from Cons.prems have s: "noQuadRun detect s" and pre: "\<forall>s \<in> set pre. noQuadRun detect s"
    by simp_all
  show ?case
  proof (cases "detect s")
    case (Inl e)
    from Cons.IH [OF pre, of best mq "calls @ [s]"] Inl show ?thesis by simp
  next
    case (Inr r)
    with s have nq: "\<not> hasQuad r" by (simp add: noQuadRun_def)
    then have q0: "filter (\<lambda>b. b_numVertices b = 4) (r_boundaries r) = []"
      using quads_empty_iff [of r] by simp
    let ?b = "if length (r_boundaries r) > length (r_boundaries best) then r else best"
    have "runStrategies detect ((s # pre) @ rest) best mq calls
            = runStrategies detect (pre @ rest) ?b mq (calls @ [s])"
      using Inr q0 by simp
    with Cons.IH [OF pre, of ?b mq "calls @ [s]"] show ?thesis by simp
  qed
qed

lemma runStrategies_hit:
  assumes "detect s = Inr result" and "hasQuad result"
  shows "runStrategies detect (s # rest) best mq calls = (result, calls @ [s])"
  using assms quads_empty_iff [of result] by (simp add: Let_def)

lemma runStrategies_first_quad:
  assumes "\<forall>s \<in> set pre. noQuadRun detect s" and "detect s = Inr result" and "hasQuad result"
  shows "runStrategies detect (pre @ s # rest) best mq calls = (result, calls @ pre @ [s])"
proof -
  from runStrategies_skip [OF assms(1), of "s # rest" best mq calls]
  obtain best' mq' where "runStrategies detect (pre @ s # rest) best mq calls
      = runStrategies detect (s # rest) best' mq' (calls @ pre)" by blast
  with runStrategies_hit [of detect s result rest best' mq' "calls @ pre", OF assms(2,3)] show ?thesis by simp
qed

lemma runStrategies_calls_prefix:
  "\<exists>n. snd (runStrategies detect ss best mq calls) = calls @ take n ss \<and> (ss \<noteq> [] \<longrightarrow> 0 < n)"
proof (induction ss arbitrary: best mq calls)
  case Nil
  show ?case by simp
next
  case (Cons s ss)
  show ?case
  proof (cases "detect s")
    case (Inl e)
    from Cons.IH [of best mq "calls @ [s]"] obtain n where
      "snd (runStrategies detect ss best mq (calls @ [s])) = (calls @ [s]) @ take n ss" by blast
    with Inl have "snd (runStrategies detect (s # ss) best mq calls) = calls @ take (Suc n) (s # ss)"
      by simp
    then show ?thesis by (metis list.distinct(1) zero_less_Suc)
  next
    case (Inr r)
    show ?thesis
    proof (cases "hasQuad r")
      case True
      from runStrategies_hit [of detect s r ss best mq calls, OF Inr True]
      have "snd (runStrategies detect (s # ss) best mq calls) = calls @ take (Suc 0) (s # ss)" by simp
      then show ?thesis by (metis list.distinct(1) zero_less_Suc)
    next
      case False
      then have q0: "filter (\<lambda>b. b_numVertices b = 4) (r_boundaries r) = []"
        using quads_empty_iff [of r] by simp
      let ?b = "if length (r_boundaries r) > length (r_boundaries best) then r else best"
      from Cons.IH [of ?b mq "calls @ [s]"] obtain n where
        "snd (runStrategies detect ss ?b mq (calls @ [s])) = (calls @ [s]) @ take n ss" by blast
      with Inr q0 have "snd (runStrategies detect (s # ss) best mq calls) = calls @ take (Suc n) (s # ss)"
        by simp
      then show ?thesis by (metis list.distinct(1) zero_less_Suc)
    qed
  qed
qed

lemma runStrategies_no_boundaries:
  "\<forall>s \<in> set ss. \<exists>r. detect s = Inr r \<and> r_boundaries r = [] \<Longrightarrow>
     runStrategies detect ss best mq calls = (best, calls @ ss)"
proof (induction ss arbitrary: calls)
  case Nil
  show ?case by simp
next
  case (Cons s ss)
  then obtain r where r: "detect s = Inr r" "r_boundaries r = []" by auto
  from Cons have "runStrategies detect ss best mq (calls @ [s]) = (best, (calls @ [s]) @ ss)" by simp
  with r show ?case by simp
qed

lemma strategies_length: "length (strategies base) = 4"
  by (simp add: strategies_def)

text \<open>
  Claim C1. detectDocumentsEnhanced calls detectDocuments with the four option sets in
  the order base, edgeThreshold 30 with minAreaRatio 0.03, edgeThreshold 70 with blurRadius
  3, minAreaRatio 0.01 with maxAreaRatio 0.98. The runs executed are always a non-empty
  initial segment of that list; when run \<open>k\<close> is the first one whose result holds a
  boundary with 4 vertices, the result of that run is returned and exactly the runs
  \<open>0 .. k\<close> were executed.
\<close>

theorem detectDocumentsEnhanced_first_quad:
  assumes "k < 4"
      and "\<forall>j < k. noQuadRun detect (strategies base ! j)"
      and "detect (strategies base ! k) = Inr result"
      and "hasQuad result"
  shows "strategies base =
           [base,
            base\<lparr>o_edgeThreshold := Some 30, o_minAreaRatio := Some 0.03\<rparr>,
            base\<lparr>o_edgeThreshold := Some 70, o_blurRadius := Some 3\<rparr>,
            base\<lparr>o_minAreaRatio := Some 0.01, o_maxAreaRatio := Some 0.98\<rparr>]
         \<and> detectDocumentsEnhanced detect base = (result, take (Suc k) (strategies base))
         \<and> (\<exists>n > 0. snd (detectDocumentsEnhanced detect base) = take n (strategies base))"
proof -
  let ?ss = "strategies base"
  have k: "k < length ?ss" using assms(1) by (simp add: strategies_length)
  have split: "?ss = take k ?ss @ (?ss ! k) # drop (Suc k) ?ss"
    using k by (rule id_take_nth_drop)
  have pre: "\<forall>s \<in> set (take k ?ss). noQuadRun detect s"
  proof
    fix s assume "s \<in> set (take k ?ss)"
    then obtain j where "j < k" "s = ?ss ! j"
      using k by (auto simp: in_set_conv_nth)
    with assms(2) show "noQuadRun detect s" by simp
  qed
  have "runStrategies detect (take k ?ss @ (?ss ! k) # drop (Suc k) ?ss) emptyResult 0 []
          = (result, [] @ take k ?ss @ [?ss ! k])"
    using pre assms(3,4) by (rule runStrategies_first_quad)
  with split have "runStrategies detect ?ss emptyResult 0 [] = (result, take k ?ss @ [?ss ! k])"
    by simp
  moreover have "take (Suc k) ?ss = take k ?ss @ [?ss ! k]"
    using k by (rule take_Suc_conv_app_nth)
  ultimately have run: "detectDocumentsEnhanced detect base = (result, take (Suc k) ?ss)"
    by (simp add: detectDocumentsEnhanced_def)
  have "strategies base \<noteq> []" by (simp add: strategies_def)
  with runStrategies_calls_prefix [of detect ?ss emptyResult 0 "[]"]
  have "\<exists>n > 0. snd (detectDocumentsEnhanced detect base) = take n ?ss"
    by (auto simp: detectDocumentsEnhanced_def)
  with run show ?thesis by (simp add: strategies_def)
qed

text \<open>
  Claim C1 at the run \<open>detectW\<close>: nothing found with the base options, an exception at
  edgeThreshold 30, a quadrilateral at edgeThreshold 70. The third result is returned and
  the fourth option set is never tried.
\<close>

theorem detectDocumentsEnhanced_first_quad_witness:
  "detectW (strategies baseW ! 2) = Inr quadResultW
   \<and> hasQuad quadResultW
   \<and> detectDocumentsEnhanced detectW baseW
       = (quadResultW,
          [baseW,
           baseW\<lparr>o_edgeThreshold := Some 30, o_minAreaRatio := Some 0.03\<rparr>,
           baseW\<lparr>o_edgeThreshold := Some 70, o_blurRadius := Some 3\<rparr>])"
proof -
  have k: "(2::nat) < 4" by simp
  have hit: "detectW (strategies baseW ! 2) = Inr quadResultW"
    by (simp add: strategies_def detectW_def baseW_def)
  have quad: "hasQuad quadResultW"
    by (simp add: hasQuad_def quadResultW_def quadW_def)
  have before: "\<forall>j < 2. noQuadRun detectW (strategies baseW ! j)"
  proof (intro allI impI)
    fix j :: nat
    assume "j < 2"
    then consider "j = 0" | "j = 1" by linarith
    then show "noQuadRun detectW (strategies baseW ! j)"
      by cases (simp_all add: noQuadRun_def strategies_def detectW_def baseW_def hasQuad_def
                  noneResultW_def)
  qed
  from detectDocumentsEnhanced_first_quad [OF k before hit quad] hit quad
  show ?thesis by (simp add: strategies_def)
qed

text \<open>
  When every run completes with zero boundaries, no run replaces the object the loop
  starts from, \<open>{ boundaries: [], intermediate: {}, stats: {} }\<close>: the test
  \<open>result.boundaries.length > bestResult.boundaries.length\<close> is strict. All four runs
  are executed and that object is returned.
\<close>

lemma detectDocumentsEnhanced_placeholder:
  assumes "\<forall>s \<in> set (strategies base). \<exists>r. detect s = Inr r \<and> r_boundaries r = []"
  shows "detectDocumentsEnhanced detect base = (emptyResult, strategies base)"
  using runStrategies_no_boundaries [OF assms, of emptyResult 0 "[]"]
  by (simp add: detectDocumentsEnhanced_def)


section \<open>Properties of the overlap filter\<close>

lemma markOverlapping_fold:
  "foldl (\<lambda>used j.
      if j \<in> used then used
      else if jsgt (calculateIoU (b_boundingRect (bs ! i)) (b_boundingRect (bs ! j))) thr
           then insert j used else used) used js
   = used \<union> {j \<in> set js. overlaps thr (bs ! i) (bs ! j)}"
proof (induction js arbitrary: used)
  case Nil
  show ?case by simp
next
  case (Cons j js)
  show ?case by (simp add: Cons.IH overlaps_def) blast
qed

lemma markOverlapping_eq:
  "markOverlapping bs thr i used
     = used \<union> {j. i < j \<and> j < length bs \<and> overlaps thr (bs ! i) (bs ! j)}"
  unfolding markOverlapping_def markOverlapping_fold by auto

lemma filterOverlapping_loop:
  "i \<le> length bs \<Longrightarrow>
   fst (foldl (\<lambda>(selected, used) i.
          if i \<in> used then (selected, used)
          else (selected @ [bs ! i], markOverlapping bs thr i used))
        (selected, used) [i ..< length bs])
   = selected @ suppress thr (remaining bs used i)"
proof (induction "length bs - i" arbitrary: i selected used)
  case 0
  then show ?case by (simp add: remaining_def)
next
  case (Suc n)
  then have i: "i < length bs" by simp
  have up: "[i ..< length bs] = i # [Suc i ..< length bs]" using i by (simp add: upt_conv_Cons)
  have n: "n = length bs - Suc i" using Suc.hyps(2) by simp
  show ?case
  proof (cases "i \<in> used")
    case True
    have "remaining bs used i = remaining bs used (Suc i)"
      using True by (simp add: remaining_def up)
    with Suc.hyps(1) [OF n, of selected used] i True show ?thesis by (simp add: up)
  next
    case False
    let ?used = "markOverlapping bs thr i used"
    have rem: "remaining bs used i = bs ! i # remaining bs used (Suc i)"
      using False by (simp add: remaining_def up)
    have "remaining bs ?used (Suc i)
            = filter (\<lambda>c. \<not> overlaps thr (bs ! i) c) (remaining bs used (Suc i))"
      unfolding remaining_def markOverlapping_eq filter_map filter_filter o_def
      by (rule arg_cong [where f = "map ((!) bs)"], rule filter_cong) auto
    with rem have "suppress thr (remaining bs used i)
                     = bs ! i # suppress thr (remaining bs ?used (Suc i))" by simp
    with Suc.hyps(1) [OF n, of "selected @ [bs ! i]" ?used] i False show ?thesis by (simp add: up)
  qed
qed

lemma filterOverlapping_suppress: "filterOverlapping bs thr = suppress thr bs"
proof -
  have "remaining bs {} 0 = bs" by (simp add: remaining_def map_nth)
  with filterOverlapping_loop [of 0 bs thr "[]" "{}"] show ?thesis
    by (simp add: filterOverlapping_def)
qed

lemma suppress_subset: "set (suppress thr bs) \<subseteq> set bs"
proof (induction thr bs rule: suppress.induct)
  case (1 thr)
  show ?case by simp
next
  case (2 thr b bs)
  then show ?case by auto
qed

lemma suppress_pairwise:
  "i < j \<Longrightarrow> j < length (suppress thr bs) \<Longrightarrow>
     \<not> overlaps thr (suppress thr bs ! i) (suppress thr bs ! j)"
proof (induction thr bs arbitrary: i j rule: suppress.induct)
  case (1 thr)
  then show ?case by simp
next
  case (2 thr b bs)
  let ?rest = "suppress thr (filter (\<lambda>c. \<not> overlaps thr b c) bs)"
  from "2.prems" obtain j' where j': "j = Suc j'" "j' < length ?rest" by (cases j) auto
  show ?case
  proof (cases i)
    case 0
    have "?rest ! j' \<in> set ?rest" using j'(2) by simp
    with suppress_subset have "?rest ! j' \<in> set (filter (\<lambda>c. \<not> overlaps thr b c) bs)" by blast
    then show ?thesis using 0 j'(1) by simp
  next
    case (Suc i')
    with "2.prems" j' have "i' < j'" by simp
    from "2.IH" [OF this j'(2)] Suc j'(1) show ?thesis by simp
  qed
qed

lemma suppress_fixed:
  "(\<And>i j. i < j \<Longrightarrow> j < length bs \<Longrightarrow> \<not> overlaps thr (bs ! i) (bs ! j)) \<Longrightarrow>
     suppress thr bs = bs"
proof (induction bs)
  case Nil
  show ?case by simp
next
  case (Cons b bs)
  have keep: "filter (\<lambda>c. \<not> overlaps thr b c) bs = bs"
  proof (rule filter_True, rule ballI)
    fix c assume "c \<in> set bs"
    then obtain k where "k < length bs" "c = bs ! k" by (auto simp: in_set_conv_nth)
    with Cons.prems [of 0 "Suc k"] show "\<not> overlaps thr b c" by simp
  qed
  have "suppress thr bs = bs"
  proof (rule Cons.IH)
    fix i j assume "i < j" "j < length bs"
    with Cons.prems [of "Suc i" "Suc j"] show "\<not> overlaps thr (bs ! i) (bs ! j)" by simp
  qed
  with keep show ?case by simp
qed

lemma calculateIoU_sym: "calculateIoU r1 r2 = calculateIoU r2 r1"
  by (simp add: calculateIoU_def Let_def max.commute min.commute add.commute)

lemma calculateIoU_cases:
  "calculateIoU r1 r2 = PosInf \<or> (\<exists>v. calculateIoU r1 r2 = Num v)"
  by (auto simp: calculateIoU_def Let_def jsdiv_def not_le)

text \<open>
  Claim C7. filterOverlapping is idempotent at every threshold, 0.5 included: applied to
  its own output it returns that output. In its output the bounding-box IoU of every two
  boundaries at different positions is a number and at most the threshold.
\<close>

theorem filterOverlapping_idempotent:
  "filterOverlapping (filterOverlapping bs iouThreshold) iouThreshold
     = filterOverlapping bs iouThreshold
   \<and> (\<forall>i j. i < length (filterOverlapping bs iouThreshold)
            \<and> j < length (filterOverlapping bs iouThreshold) \<and> i \<noteq> j \<longrightarrow>
          (\<exists>v. calculateIoU (b_boundingRect (filterOverlapping bs iouThreshold ! i))
                            (b_boundingRect (filterOverlapping bs iouThreshold ! j)) = Num v
               \<and> v \<le> iouThreshold))"
proof -
  let ?out = "suppress iouThreshold bs"
  have apart: "\<not> overlaps iouThreshold (?out ! i) (?out ! j)"
    if "i < length ?out" "j < length ?out" "i \<noteq> j" for i j
  proof (cases "i < j")
    case True
    with that show ?thesis by (simp add: suppress_pairwise)
  next
    case False
    with that have "j < i" by simp
    with that have "\<not> overlaps iouThreshold (?out ! j) (?out ! i)" by (simp add: suppress_pairwise)
    then show ?thesis by (simp add: overlaps_def calculateIoU_sym)
  qed
  have "suppress iouThreshold ?out = ?out"
    by (rule suppress_fixed) (simp add: apart)
  moreover have "\<exists>v. calculateIoU (b_boundingRect (?out ! i)) (b_boundingRect (?out ! j)) = Num v
                      \<and> v \<le> iouThreshold"
    if "i < length ?out" "j < length ?out" "i \<noteq> j" for i j
    using apart [OF that]
          calculateIoU_cases [of "b_boundingRect (?out ! i)" "b_boundingRect (?out ! j)"]
    by (auto simp: overlaps_def)
  ultimately show ?thesis by (simp add: filterOverlapping_suppress)
qed

lemma overlapW_filtered: "filterOverlapping overlapW 0.5 = [boxW 0 0 10 10, boxW 20 0 8 8]"
  by (simp add: filterOverlapping_suppress overlapW_def overlaps_def calculateIoU_def boxW_def
        jsdiv_def)

text \<open>
  Claim C7 on three boundaries: the second is suppressed by the first, filtering the two
  that are left changes nothing, and their IoU is 0.
\<close>

theorem filterOverlapping_idempotent_witness:
  "filterOverlapping overlapW 0.5 = [boxW 0 0 10 10, boxW 20 0 8 8]
   \<and> filterOverlapping [boxW 0 0 10 10, boxW 20 0 8 8] 0.5 = [boxW 0 0 10 10, boxW 20 0 8 8]
   \<and> calculateIoU (b_boundingRect (boxW 0 0 10 10)) (b_boundingRect (boxW 20 0 8 8)) = Num 0"
proof -
  have iou: "calculateIoU (b_boundingRect (boxW 0 0 10 10)) (b_boundingRect (boxW 20 0 8 8)) = Num 0"
    by (simp add: calculateIoU_def boxW_def)
  from filterOverlapping_idempotent [of overlapW "0.5"] overlapW_filtered iou
  show ?thesis by simp
qed

section \<open>The approximation always returns\<close>

lemma perimeter_fold_nonneg:
  "0 \<le> acc \<Longrightarrow>
     0 \<le> foldl (\<lambda>perimeter i.
           let j = (i + 1) mod n;
               dx = real_of_int (fst (contour ! j) - fst (contour ! i));
               dy = real_of_int (snd (contour ! j) - snd (contour ! i))
           in perimeter + sqrt (dx * dx + dy * dy)) acc js"
proof (induction js arbitrary: acc)
  case Nil
  then show ?case by simp
next
  case (Cons i js)
  show ?case
    unfolding foldl_Cons
    by (rule Cons.IH) (simp add: Let_def Cons.prems)
qed

lemma getContourPerimeter_nonneg: "0 \<le> getContourPerimeter contour"
  unfolding getContourPerimeter_def Let_def
  using perimeter_fold_nonneg [of 0 "length contour" contour "[0 ..< length contour]"]
  by (simp add: Let_def)

lemma maxDistance_fold:
  "foldl (\<lambda>(maxDist, maxIdx) i.
        let dst = (f i :: real)
        in if dst > maxDist then (dst, i) else (maxDist, maxIdx)) (d0, k0) js = (d, k) \<Longrightarrow>
     d0 \<le> d \<and> (k \<in> set js \<or> (d = d0 \<and> k = k0))"
proof (induction js arbitrary: d0 k0)
  case Nil
  then show ?case by simp
next
  case (Cons i js)
  show ?case
  proof (cases "f i > d0")
    case True
    with Cons.prems have "foldl (\<lambda>(maxDist, maxIdx) i.
        let dst = f i
        in if dst > maxDist then (dst, i) else (maxDist, maxIdx)) (f i, i) js = (d, k)"
      by (simp add: Let_def)
    from Cons.IH [OF this] True show ?thesis by auto
  next
    case False
    with Cons.prems have "foldl (\<lambda>(maxDist, maxIdx) i.
        let dst = f i
        in if dst > maxDist then (dst, i) else (maxDist, maxIdx)) (d0, k0) js = (d, k)"
      by (simp add: Let_def)
    from Cons.IH [OF this] show ?thesis by auto
  qed
qed

lemma maxDistance_index:
  assumes "maxDistance contour = (maxDist, maxIdx)" and "0 < maxDist"
  shows "1 \<le> maxIdx \<and> maxIdx + 1 < length contour"
proof -
  from assms(1) maxDistance_fold [of "\<lambda>i. pointToLineDistance (contour ! i) (contour ! 0)
      (contour ! (length contour - 1))" 0 0 "[1 ..< length contour - 1]" maxDist maxIdx] assms(2)
  have "maxIdx \<in> set [1 ..< length contour - 1]" by (auto simp add: maxDistance_def)
  then show ?thesis by auto
qed

lemma approximatePolygon_returns:
  "0 \<le> epsilon \<Longrightarrow> \<exists>approx. approximatePolygon contour epsilon = Some approx"
proof (induction "length contour" arbitrary: contour rule: less_induct)
  case less
  show ?case
  proof (cases "length contour < 3")
    case True
    then show ?thesis by (subst approximatePolygon.simps) simp
  next
    case False
    obtain maxDist maxIdx where md: "maxDistance contour = (maxDist, maxIdx)"
      by (cases "maxDistance contour") auto
    show ?thesis
    proof (cases "maxDist > epsilon")
      case no: False
      with False md show ?thesis by (subst approximatePolygon.simps) simp
    next
      case yes: True
      with less.prems have "0 < maxDist" by simp
      from maxDistance_index [OF md this] have idx: "1 \<le> maxIdx" "maxIdx + 1 < length contour"
        by simp_all
      from idx have "length (take (maxIdx + 1) contour) < length contour" by simp
      from less.hyps [OF this less.prems] obtain left where
        l: "approximatePolygon (take (maxIdx + 1) contour) epsilon = Some left" by blast
      from idx have "length (drop maxIdx contour) < length contour" by simp
      from less.hyps [OF this less.prems] obtain right where
        r: "approximatePolygon (drop maxIdx contour) epsilon = Some right" by blast
      from False md yes l r show ?thesis by (subst approximatePolygon.simps) simp
    qed
  qed
qed

section \<open>The sweep and the fallback\<close>

lemma sweep_sweepList:
  "map (\<lambda>f. approximatePolygon contour (f * getContourPerimeter contour)) fs = map Some approxs \<Longrightarrow>
     sweep contour fs bestApprox = Some (sweepList approxs bestApprox)"
proof (induction fs arbitrary: approxs bestApprox)
  case Nil
  then show ?case by simp
next
  case (Cons f fs)
  then obtain a as where as: "approxs = a # as"
    "approximatePolygon contour (f * getContourPerimeter contour) = Some a"
    "map (\<lambda>f. approximatePolygon contour (f * getContourPerimeter contour)) fs = map Some as"
    by (cases approxs) auto
  from Cons.IH [OF as(3)] as(1,2) show ?case by simp
qed

lemma sweepList_four:
  "find (\<lambda>a. length a = 4) approxs = Some a \<Longrightarrow> sweepList approxs bestApprox = Some a"
  by (induction approxs arbitrary: bestApprox) (auto split: if_splits)

lemma arg_min_list_keep:
  "f b \<le> f a \<Longrightarrow> arg_min_list f (b # a # cs) = arg_min_list f (b # cs)"
  for f :: "'a \<Rightarrow> int"
  by (cases cs) (auto simp: Let_def)

lemma arg_min_list_le_head: "f (arg_min_list f (a # cs)) \<le> f a"
  for f :: "'a \<Rightarrow> int"
  by (cases cs) (auto simp: Let_def)

lemma arg_min_list_drop:
  "f a < f b \<Longrightarrow> arg_min_list f (b # a # cs) = arg_min_list f (a # cs)"
  for f :: "'a \<Rightarrow> int"
  using arg_min_list_le_head [of f a cs] by (simp add: Let_def)

lemma sweepList_best:
  "find (\<lambda>a. length a = 4) approxs = None \<Longrightarrow>
     sweepList approxs (Some b)
       = Some (arg_min_list vertexKey (b # filter (\<lambda>a. 4 \<le> length a \<and> length a \<le> 8) approxs))"
proof (induction approxs arbitrary: b)
  case Nil
  show ?case by simp
next
  case (Cons a as)
  then have n4: "length a \<noteq> 4" and rest: "find (\<lambda>a. length a = 4) as = None"
    by (auto split: if_splits)
  show ?case
  proof (cases "4 \<le> length a \<and> length a \<le> 8")
    case False
    with n4 Cons.IH [OF rest, of b] show ?thesis by auto
  next
    case True
    let ?cands = "filter (\<lambda>a. 4 \<le> length a \<and> length a \<le> 8) as"
    have cands: "filter (\<lambda>a. 4 \<le> length a \<and> length a \<le> 8) (a # as) = a # ?cands"
      using True by simp
    show ?thesis
    proof (cases "vertexKey a < vertexKey b")
      case closer: True
      then have "sweepList (a # as) (Some b) = sweepList as (Some a)"
        using True n4 by (simp add: vertexKey_def)
      also have "\<dots> = Some (arg_min_list vertexKey (a # ?cands))"
        by (rule Cons.IH [OF rest])
      also have "arg_min_list vertexKey (a # ?cands) = arg_min_list vertexKey (b # a # ?cands)"
        using closer by (rule arg_min_list_drop [symmetric])
      finally show ?thesis unfolding cands .
    next
      case False
      then have le: "vertexKey b \<le> vertexKey a" by simp
      from False have "sweepList (a # as) (Some b) = sweepList as (Some b)"
        using True n4 by (simp add: vertexKey_def)
      also have "\<dots> = Some (arg_min_list vertexKey (b # ?cands))"
        by (rule Cons.IH [OF rest])
      also have "arg_min_list vertexKey (b # ?cands) = arg_min_list vertexKey (b # a # ?cands)"
        using le by (rule arg_min_list_keep [symmetric])
      finally show ?thesis unfolding cands .
    qed
  qed
qed

lemma sweepList_none:
  "find (\<lambda>a. length a = 4) approxs = None \<Longrightarrow> sweepList approxs None = pickBest approxs"
proof (induction approxs)
  case Nil
  show ?case by (simp add: pickBest_def)
next
  case (Cons a as)
  then have n4: "length a \<noteq> 4" and rest: "find (\<lambda>a. length a = 4) as = None"
    by (auto split: if_splits)
  show ?case
  proof (cases "4 \<le> length a \<and> length a \<le> 8")
    case False
    with n4 Cons.IH [OF rest] show ?thesis by (auto simp: pickBest_def)
  next
    case True
    with n4 sweepList_best [OF rest, of a] show ?thesis by (simp add: pickBest_def)
  qed
qed

lemma approximations_exist:
  "\<exists>approxs. map (\<lambda>f. approximatePolygon contour (f * getContourPerimeter contour)) fs
               = map Some approxs" if "\<forall>f \<in> set fs. 0 \<le> f"
  using that
proof (induction fs)
  case Nil
  show ?case by simp
next
  case (Cons f fs)
  then obtain approxs where a: "map (\<lambda>f. approximatePolygon contour (f * getContourPerimeter contour)) fs
               = map Some approxs" by auto
  from Cons.prems have "0 \<le> f * getContourPerimeter contour"
    by (simp add: getContourPerimeter_nonneg)
  from approximatePolygon_returns [OF this] obtain x where
    "approximatePolygon contour (f * getContourPerimeter contour) = Some x" by blast
  with a have "map (\<lambda>f. approximatePolygon contour (f * getContourPerimeter contour)) (f # fs)
               = map Some (x # approxs)" by simp
  then show ?case by blast
qed

lemma chooseApprox_spec:
  assumes "map (\<lambda>f. approximatePolygon contour (f * getContourPerimeter contour)) epsilonFactors
             = map Some approxs"
  shows "chooseApprox contour = Some (chooseSpec approxs (findCorners contour 4))"
proof -
  have sw: "sweep contour epsilonFactors None = Some (sweepList approxs None)"
    using assms by (rule sweep_sweepList)
  show ?thesis
  proof (cases "find (\<lambda>a. length a = 4) approxs")
    case (Some a)
    then have "length a = 4" by (auto simp: find_Some_iff)
    with sw sweepList_four [OF Some, of None] Some show ?thesis
      by (simp add: chooseApprox_def chooseSpec_def)
  next
    case None
    with sw sweepList_none [OF None] show ?thesis
      by (auto simp: chooseApprox_def chooseSpec_def Let_def split: option.splits)
  qed
qed

lemma chooseApprox_returns: "\<exists>r. chooseApprox contour = Some r"
proof -
  have "\<forall>f \<in> set epsilonFactors. 0 \<le> f" by (simp add: epsilonFactors_def)
  from approximations_exist [OF this, of contour] chooseApprox_spec show ?thesis by blast
qed

section \<open>Bounding boxes and the aspect test\<close>

lemma foldl_min_le: "foldl min a xs \<le> a \<and> (\<forall>x \<in> set xs. foldl min a xs \<le> x)"
  for a :: int
proof (induction xs arbitrary: a)
  case Nil
  show ?case by simp
next
  case (Cons x xs)
  from Cons.IH [of "min a x"] show ?case by auto
qed

lemma foldl_max_ge: "a \<le> foldl max a xs \<and> (\<forall>x \<in> set xs. x \<le> foldl max a xs)"
  for a :: int
proof (induction xs arbitrary: a)
  case Nil
  show ?case by simp
next
  case (Cons x xs)
  from Cons.IH [of "max a x"] show ?case by auto
qed

lemma getBoundingBox_bounds:
  assumes "getBoundingBox contour = Some bbox" and "p \<in> set contour"
  shows "rx bbox \<le> fst p \<and> fst p \<le> rx bbox + rwidth bbox
         \<and> ry bbox \<le> snd p \<and> snd p \<le> ry bbox + rheight bbox"
proof -
  from assms(1) obtain q qs where c: "contour = q # qs" by (cases contour) (auto simp: getBoundingBox_def)
  from assms(2) c have "p = q \<or> p \<in> set qs" by simp
  then have "foldl min (fst q) (map fst qs) \<le> fst p \<and> fst p \<le> foldl max (fst q) (map fst qs)
      \<and> foldl min (snd q) (map snd qs) \<le> snd p \<and> snd p \<le> foldl max (snd q) (map snd qs)"
    using foldl_min_le [of "fst q" "map fst qs"] foldl_max_ge [of "fst q" "map fst qs"]
          foldl_min_le [of "snd q" "map snd qs"] foldl_max_ge [of "snd q" "map snd qs"]
    by auto
  with assms(1) c show ?thesis by (auto simp: getBoundingBox_def Let_def)
qed

lemma getBoundingBox_nonneg:
  assumes "getBoundingBox contour = Some bbox"
  shows "0 \<le> rwidth bbox \<and> 0 \<le> rheight bbox"
proof -
  from assms obtain q qs where c: "contour = q # qs" by (cases contour) (auto simp: getBoundingBox_def)
  then have "q \<in> set contour" by simp
  from getBoundingBox_bounds [OF assms this] show ?thesis by linarith
qed

lemma getBoundingBox_two_points:
  assumes "getBoundingBox contour = Some bbox" and "p \<in> set contour" and "q \<in> set contour"
      and "p \<noteq> q"
  shows "0 < rwidth bbox \<or> 0 < rheight bbox"
proof -
  from getBoundingBox_bounds [OF assms(1,2)] getBoundingBox_bounds [OF assms(1,3)] assms(4)
  show ?thesis by (cases p, cases q) auto
qed

text \<open>A contour of the tracer passes the aspect test only with a non-zero height.\<close>

lemma aspect_of_traced:
  assumes "tracedFrom data width height contour"
      and "\<not> (jslt (aspectRatioOf contour) 0.3 \<or> jsgt (aspectRatioOf contour) 3.5)"
  shows "\<exists>bbox. getBoundingBox contour = Some bbox \<and> rheight bbox \<noteq> 0
           \<and> aspectRatioOf contour = Num (real_of_int (rwidth bbox) / real_of_int (rheight bbox))
           \<and> 0.3 \<le> real_of_int (rwidth bbox) / real_of_int (rheight bbox)
           \<and> real_of_int (rwidth bbox) / real_of_int (rheight bbox) \<le> 3.5"
proof -
  from assms(1) obtain s q ys where c: "contour = s # q # ys" "q \<noteq> s"
    unfolding tracedFrom_def by blast
  then obtain bbox where bb: "getBoundingBox contour = Some bbox"
    by (auto simp: getBoundingBox_def Let_def)
  from c have "s \<in> set contour" "q \<in> set contour" by simp_all
  from getBoundingBox_two_points [OF bb this] c(2) have pos: "0 < rwidth bbox \<or> 0 < rheight bbox"
    by auto
  from getBoundingBox_nonneg [OF bb] have nn: "0 \<le> rwidth bbox" "0 \<le> rheight bbox" by simp_all
  have h: "rheight bbox \<noteq> 0"
  proof
    assume z: "rheight bbox = 0"
    with pos have "0 < rwidth bbox" by simp
    with z bb have "aspectRatioOf contour = PosInf" by (simp add: aspectRatioOf_def jsdiv_def)
    with assms(2) show False by simp
  qed
  then have ar: "aspectRatioOf contour = Num (real_of_int (rwidth bbox) / real_of_int (rheight bbox))"
    using bb by (simp add: aspectRatioOf_def jsdiv_def)
  with assms(2) bb h show ?thesis by (simp add: not_less)
qed

section \<open>Where the boundaries of a result come from\<close>

lemma processContour_returns: "\<exists>r. processContour minArea maxArea contour = Some r"
proof -
  from chooseApprox_returns [of contour] obtain r where "chooseApprox contour = Some r" by blast
  then show ?thesis
    by (auto simp: processContour_def Let_def split: option.splits)
qed

lemma processContour_pushed:
  assumes "processContour minArea maxArea contour = Some (Some b)"
  shows "passesFilter minArea maxArea contour
         \<and> (\<exists>bestApprox. chooseApprox contour = Some (Some bestApprox)
               \<and> 4 \<le> length bestApprox \<and> length bestApprox \<le> 8
               \<and> b_numVertices b = length bestApprox
               \<and> b_points b = (if length bestApprox = 4 then orderQuadPoints bestApprox
                                else bestApprox))
         \<and> getBoundingBox contour = Some (b_boundingRect b)
         \<and> b_area b = calculateContourArea contour
         \<and> b_aspectRatio b = aspectRatioOf contour
         \<and> b_isConvex b = isConvex (b_points b)
         \<and> b_type b = None"
proof -
  have pf: "passesFilter minArea maxArea contour"
  proof (rule ccontr)
    assume "\<not> passesFilter minArea maxArea contour"
    with assms show False by (simp add: processContour_def)
  qed
  obtain r where r: "chooseApprox contour = Some r" using chooseApprox_returns by blast
  show ?thesis
  proof (cases r)
    case None
    with assms pf r show ?thesis by (simp add: processContour_def)
  next
    case (Some best)
    show ?thesis
    proof (cases "4 \<le> length best \<and> length best \<le> 8")
      case False
      with assms pf r Some show ?thesis by (simp add: processContour_def)
    next
      case True
      show ?thesis
      proof (cases "getBoundingBox contour")
        case None
        with assms pf r Some True show ?thesis by (simp add: processContour_def)
      next
        case bb: (Some bbox)
        let ?pts = "if length best = 4 then orderQuadPoints best else best"
        from assms pf r Some True bb
        have "b = \<lparr>b_points = ?pts, b_area = calculateContourArea contour,
                     b_aspectRatio = aspectRatioOf contour, b_numVertices = length best,
                     b_boundingRect = bbox, b_isConvex = isConvex ?pts, b_type = None\<rparr>"
          by (simp add: processContour_def Let_def)
        with pf r Some True bb show ?thesis by simp
      qed
    qed
  qed
qed

lemma collectBoundaries_origin:
  "\<exists>bs. collectBoundaries minArea maxArea contours boundaries = Some bs
        \<and> (\<forall>b \<in> set bs. b \<in> set boundaries
              \<or> (\<exists>c \<in> set contours. processContour minArea maxArea c = Some (Some b)))"
proof (induction contours arbitrary: boundaries)
  case Nil
  show ?case by simp
next
  case (Cons c cs)
  from processContour_returns [of minArea maxArea c] obtain r where
    r: "processContour minArea maxArea c = Some r" by blast
  show ?case
  proof (cases r)
    case None
    from Cons.IH [of boundaries] r None show ?thesis by auto
  next
    case (Some b)
    from Cons.IH [of "boundaries @ [b]"] r Some show ?thesis by auto
  qed
qed

lemma filterOverlapping_subset: "set (filterOverlapping bs thr) \<subseteq> set bs"
  by (simp add: filterOverlapping_suppress suppress_subset)

lemma retyped_elements:
  assumes "b \<in> set (map (\<lambda>k. (bs ! k)\<lparr>b_type := Some (f k)\<rparr>) [0 ..< length bs])"
  shows "\<exists>b0 \<in> set bs. \<exists>t. b = b0\<lparr>b_type := Some t\<rparr>"
proof -
  from assms obtain k where k: "k < length bs" "b = (bs ! k)\<lparr>b_type := Some (f k)\<rparr>" by auto
  from k(1) have "bs ! k \<in> set bs" by simp
  with k(2) show ?thesis by blast
qed

lemma classifyDetections_elements:
  assumes "b \<in> set (classifyDetections bs)"
  shows "\<exists>b0 \<in> set bs. \<exists>t. b = b0\<lparr>b_type := Some t\<rparr>"
  using assms unfolding classifyDetections_def by (rule retyped_elements)

lemma classifyDetections_length: "length (classifyDetections bs) = length bs"
  by (simp add: classifyDetections_def)

lemma detectDocuments_origin:
  "\<exists>res. detectDocuments opts width height processed stages = Some res
     \<and> r_intermediate res = stages
     \<and> (\<forall>b \<in> set (r_boundaries res).
           \<exists>c \<in> set (findContours processed width height).
             processContour (real (width * height) * minAreaRatioOf opts)
               (real (width * height) * maxAreaRatioOf opts) c = Some (Some (b\<lparr>b_type := None\<rparr>)))"
proof -
  let ?mn = "real (width * height) * minAreaRatioOf opts"
  let ?mx = "real (width * height) * maxAreaRatioOf opts"
  let ?cs = "findContours processed width height"
  from collectBoundaries_origin [of ?mn ?mx ?cs "[]"] obtain bs where
    bs: "collectBoundaries ?mn ?mx ?cs [] = Some bs"
    and origin: "\<forall>b \<in> set bs. \<exists>c \<in> set ?cs. processContour ?mn ?mx c = Some (Some b)"
    by auto
  let ?filtered = "classifyDetections (filterOverlapping (sort_key (\<lambda>b. - b_area b) bs) 0.5)"
  have res: "detectDocuments opts width height processed stages
               = Some \<lparr>r_boundaries = ?filtered, r_intermediate = stages,
                        r_stats = Some \<lparr>totalDetected = length ?filtered,
                          processingPipeline = [''grayscale'', ''blur'', ''edges'',
                            ''threshold'', ''contours'', ''filter'']\<rparr>\<rparr>"
    using bs by (simp add: detectDocuments_def Let_def)
  have "\<exists>c \<in> set ?cs. processContour ?mn ?mx c = Some (Some (b\<lparr>b_type := None\<rparr>))"
    if "b \<in> set ?filtered" for b
  proof -
    from classifyDetections_elements [OF that] obtain b0 t where
      b0: "b0 \<in> set (filterOverlapping (sort_key (\<lambda>b. - b_area b) bs) 0.5)"
      and b: "b = b0\<lparr>b_type := Some t\<rparr>" by blast
    from b0 filterOverlapping_subset have "b0 \<in> set (sort_key (\<lambda>b. - b_area b) bs)" by blast
    then have "b0 \<in> set bs" by simp
    with origin obtain c where c: "c \<in> set ?cs" "processContour ?mn ?mx c = Some (Some b0)" by blast
    from processContour_pushed [OF c(2)] have "b_type b0 = None" by simp
    then have "b\<lparr>b_type := None\<rparr> = b0" using b by simp
    with c show ?thesis by auto
  qed
  with res show ?thesis by simp
qed

section \<open>orderQuadPoints\<close>

lemma upt_4: "[0 ..< 4] = [0, 1, 2, 3::nat]"
  by code_simp

lemma findStartIdx_min:
  "findStartIdx s < 4 \<and> (\<forall>i < 4. coordSum (s ! findStartIdx s) \<le> coordSum (s ! i))"
proof -
  have cases4: "i = 0 \<or> i = 1 \<or> i = 2 \<or> i = 3" if "i < 4" for i :: nat
    using that by linarith
  have "findStartIdx s < 4 \<and> coordSum (s ! findStartIdx s) \<le> coordSum (s ! 0)
        \<and> coordSum (s ! findStartIdx s) \<le> coordSum (s ! 1)
        \<and> coordSum (s ! findStartIdx s) \<le> coordSum (s ! 2)
        \<and> coordSum (s ! findStartIdx s) \<le> coordSum (s ! 3)"
    by (simp add: findStartIdx_def upt_4 Let_def coordSum_def)
  with cases4 show ?thesis by blast
qed

lemma rotate_by_index:
  assumes "length s = 4" and "k < 4"
  shows "map (\<lambda>i. s ! ((k + i) mod 4)) [0 ..< 4] = rotate k s"
proof (rule nth_equalityI)
  show "length (map (\<lambda>i. s ! ((k + i) mod 4)) [0 ..< 4]) = length (rotate k s)"
    using assms by simp
next
  fix i assume "i < length (map (\<lambda>i. s ! ((k + i) mod 4)) [0 ..< 4])"
  then have i: "i < 4" by simp
  with assms show "map (\<lambda>i. s ! ((k + i) mod 4)) [0 ..< 4] ! i = rotate k s ! i"
    by (simp add: nth_rotate del: upt_Suc)
qed

text \<open>
  \<open>atan2\<close> is the angle of the specification: its cosine and sine give the direction of
  the vector \<open>(x, y)\<close>, it lies between \<open>-pi\<close> (excluded) and \<open>pi\<close>, and so it is the
  principal argument of \<open>x + i y\<close>. And the centroid of the code, which divides by 4, is
  the mean of the points when there are four of them.
\<close>

lemma sqrt_one_plus_quotient:
  fixes x y :: real
  assumes "x \<noteq> 0"
  shows "sqrt (1 + (y / x)\<^sup>2) = sqrt (x\<^sup>2 + y\<^sup>2) / \<bar>x\<bar>"
proof -
  have "1 + (y / x)\<^sup>2 = (x\<^sup>2 + y\<^sup>2) / x\<^sup>2"
    using assms by (simp add: field_simps power2_eq_square)
  then have "sqrt (1 + (y / x)\<^sup>2) = sqrt ((x\<^sup>2 + y\<^sup>2) / x\<^sup>2)" by simp
  also have "\<dots> = sqrt (x\<^sup>2 + y\<^sup>2) / sqrt (x\<^sup>2)" by (rule real_sqrt_divide)
  also have "sqrt (x\<^sup>2) = \<bar>x\<bar>" by simp
  finally show ?thesis .
qed

lemma arctan_polar:
  fixes x y :: real
  assumes "x \<noteq> 0"
  shows "cos (arctan (y / x)) = \<bar>x\<bar> / sqrt (x\<^sup>2 + y\<^sup>2)"
    and "sin (arctan (y / x)) = (y / x) * \<bar>x\<bar> / sqrt (x\<^sup>2 + y\<^sup>2)"
  using assms by (simp_all add: cos_arctan sin_arctan sqrt_one_plus_quotient)

lemma atan2_polar:
  fixes x y :: real
  assumes "x \<noteq> 0 \<or> y \<noteq> 0"
  shows "cos (atan2 y x) = x / sqrt (x\<^sup>2 + y\<^sup>2)
         \<and> sin (atan2 y x) = y / sqrt (x\<^sup>2 + y\<^sup>2)
         \<and> - pi < atan2 y x \<and> atan2 y x \<le> pi"
proof -
  consider (right) "0 < x" | (upper) "x < 0" "0 \<le> y" | (lower) "x < 0" "y < 0"
    | (up) "x = 0" "0 < y" | (down) "x = 0" "y < 0"
    using assms by linarith
  then show ?thesis
  proof cases
    case right
    then have a: "atan2 y x = arctan (y / x)" by (simp add: atan2_def)
    from right have "x \<noteq> 0" by simp
    from arctan_polar [OF this, of y] right
    have "cos (arctan (y / x)) = x / sqrt (x\<^sup>2 + y\<^sup>2)"
      and "sin (arctan (y / x)) = y / sqrt (x\<^sup>2 + y\<^sup>2)" by simp_all
    moreover have "- pi < arctan (y / x)" "arctan (y / x) \<le> pi"
      using arctan_lbound [of "y / x"] arctan_ubound [of "y / x"] pi_gt_zero by linarith+
    ultimately show ?thesis using a by simp
  next
    case upper
    then have a: "atan2 y x = arctan (y / x) + pi" by (simp add: atan2_def)
    from upper have "x \<noteq> 0" by simp
    from arctan_polar [OF this, of y] upper
    have "cos (arctan (y / x)) = - x / sqrt (x\<^sup>2 + y\<^sup>2)"
      and "sin (arctan (y / x)) = - y / sqrt (x\<^sup>2 + y\<^sup>2)" by simp_all
    moreover have "y / x \<le> 0" using upper by (simp add: divide_nonneg_neg)
    then have "arctan (y / x) \<le> 0" by simp
    moreover have "- pi < arctan (y / x) + pi"
      using arctan_lbound [of "y / x"] pi_gt_zero by linarith
    ultimately show ?thesis using a by simp
  next
    case lower
    then have a: "atan2 y x = arctan (y / x) - pi" by (simp add: atan2_def)
    from lower have "x \<noteq> 0" by simp
    from arctan_polar [OF this, of y] lower
    have "cos (arctan (y / x)) = - x / sqrt (x\<^sup>2 + y\<^sup>2)"
      and "sin (arctan (y / x)) = - y / sqrt (x\<^sup>2 + y\<^sup>2)" by simp_all
    moreover have "0 < y / x" using lower by (simp add: divide_neg_neg)
    then have "0 < arctan (y / x)" by simp
    moreover have "arctan (y / x) - pi \<le> pi"
      using arctan_ubound [of "y / x"] pi_gt_zero by linarith
    ultimately show ?thesis using a by simp
  next
    case up
    then show ?thesis using pi_gt_zero by (simp add: atan2_def)
  next
    case down
    have "- (pi / 2) \<le> pi" using pi_gt_zero by linarith
    with down show ?thesis by (simp add: atan2_def)
  qed
qed

lemma atan2_Arg: "atan2 y x = Arg (Complex x y)"
proof (cases "x = 0 \<and> y = 0")
  case True
  then have "Complex x y = 0" by (simp add: complex_eq_iff)
  with True show ?thesis by (simp add: atan2_def Arg_zero)
next
  case False
  then have nz: "x \<noteq> 0 \<or> y \<noteq> 0" by simp
  from atan2_polar [OF nz]
  have c: "cos (atan2 y x) = x / sqrt (x\<^sup>2 + y\<^sup>2)"
    and s: "sin (atan2 y x) = y / sqrt (x\<^sup>2 + y\<^sup>2)"
    and b: "- pi < atan2 y x" "atan2 y x \<le> pi" by simp_all
  have "sgn (Complex x y) = cis (atan2 y x)"
    by (simp add: complex_eq_iff sgn_eq c s cmod_def)
  from cis_Arg_unique [OF this b] show ?thesis by simp
qed


lemma foldl_add_sum_list:
  fixes a :: int
  shows "foldl (\<lambda>acc p. acc + f p) a xs = a + sum_list (map f xs)"
  by (induction xs arbitrary: a) simp_all

lemma angleFrom_specAngle:
  assumes "length approx = 4"
  shows "angleFrom (centroid approx) p = specAngle approx p"
proof -
  have "centroid approx = specCentroid approx"
    using assms by (simp add: centroid_def specCentroid_def foldl_add_sum_list)
  then show ?thesis by (simp add: angleFrom_def specAngle_def atan2_Arg)
qed

lemma orderQuadPoints_spec:
  assumes "length approx = 4"
  shows "orderedQuadSpec approx (orderQuadPoints approx)"
proof -
  let ?s = "sort_key (angleFrom (centroid approx)) approx"
  let ?k = "findStartIdx ?s"
  have len: "length ?s = 4" using assms by simp
  from findStartIdx_min [of ?s] have k: "?k < 4"
    and least: "\<forall>i < 4. coordSum (?s ! ?k) \<le> coordSum (?s ! i)" by simp_all
  have oq: "orderQuadPoints approx = rotate ?k ?s"
    using assms rotate_by_index [OF len k] by (simp add: orderQuadPoints_def Let_def)
  have "length (rotate ?k ?s) = 4" using len by simp
  then have "rotate ?k ?s \<noteq> []" by (cases "rotate ?k ?s") simp_all
  then have "hd (rotate ?k ?s) = rotate ?k ?s ! 0" by (simp add: hd_conv_nth)
  also have "\<dots> = ?s ! ?k" using len k by (simp add: nth_rotate)
  finally have hd: "hd (orderQuadPoints approx) = ?s ! ?k" using oq by simp
  have "coordSum (?s ! ?k) \<le> coordSum p" if "p \<in> set approx" for p
  proof -
    from that have "p \<in> set ?s" by simp
    then obtain i where "i < length ?s" "?s ! i = p" unfolding in_set_conv_nth by blast
    with least len show ?thesis by auto
  qed
  with hd have "\<forall>p \<in> set approx. coordSum (hd (orderQuadPoints approx)) \<le> coordSum p" by simp
  moreover have "mset ?s = mset approx" by simp
  moreover have "sorted (map (specAngle approx) ?s)"
  proof -
    have "angleFrom (centroid approx) = specAngle approx"
      using angleFrom_specAngle [OF assms] by (rule ext)
    moreover have "sorted (map (angleFrom (centroid approx)) ?s)" by (rule sorted_sort_key)
    ultimately show ?thesis by simp
  qed
  ultimately show ?thesis unfolding orderedQuadSpec_def using k oq by blast
qed

section \<open>Distances on the integers\<close>

lemma chordLen2_pos: "0 < chordLen2 a b"
  by (simp add: chordLen2_def Let_def sum_squares_gt_zero_iff)

lemma sqScaled_nonneg: "0 \<le> sqScaled pt a b"
  by (auto simp: sqScaled_def Let_def intro!: mult_nonneg_nonneg add_nonneg_nonneg)

lemma perpendicular_sq:
  fixes u v dx dy :: real
  assumes "dx * dx + dy * dy \<noteq> 0"
  shows "(u - (u * dx + v * dy) / (dx * dx + dy * dy) * dx)\<^sup>2
         + (v - (u * dx + v * dy) / (dx * dx + dy * dy) * dy)\<^sup>2
         = (u * dy - v * dx)\<^sup>2 / (dx * dx + dy * dy)"
proof -
  define l where "l = dx * dx + dy * dy"
  define n where "n = u * dx + v * dy"
  define t where "t = n / l"
  have l0: "l \<noteq> 0" using assms by (simp add: l_def)
  then have tl: "t * l = n" by (simp add: t_def)
  have "(u - t * dx)\<^sup>2 + (v - t * dy)\<^sup>2 = u * u + v * v - 2 * t * n + t * (t * l)"
    by (simp add: power2_eq_square algebra_simps n_def l_def)
  also have "\<dots> = u * u + v * v - t * n" using tl by simp
  finally have lhs: "(u - t * dx)\<^sup>2 + (v - t * dy)\<^sup>2 = u * u + v * v - t * n" .
  have "(u * dy - v * dx)\<^sup>2 = (u * u + v * v) * l - n * n"
    by (simp add: power2_eq_square algebra_simps n_def l_def)
  then have "(u * dy - v * dx)\<^sup>2 / l = (u * u + v * v) * l / l - n * n / l"
    by (simp add: diff_divide_distrib)
  also have "\<dots> = u * u + v * v - t * n" using l0 by (simp add: t_def)
  finally have "(u * dy - v * dx)\<^sup>2 / l = u * u + v * v - t * n" .
  with lhs show ?thesis unfolding t_def n_def l_def by simp
qed

lemma scaled_quotient: "s = x * l \<Longrightarrow> c = l \<Longrightarrow> 0 < l \<Longrightarrow> s / c = x"
  for s x l c :: real
  by simp

lemma pointToLineDistance_scaled:
  "pointToLineDistance pt a b = sqrt (real_of_int (sqScaled pt a b) / real_of_int (chordLen2 a b))"
proof -
  let ?dx = "real_of_int (fst b - fst a)"
  let ?dy = "real_of_int (snd b - snd a)"
  let ?u = "real_of_int (fst pt - fst a)"
  let ?v = "real_of_int (snd pt - snd a)"
  let ?l = "?dx * ?dx + ?dy * ?dy"
  let ?n = "?u * ?dx + ?v * ?dy"
  let ?li = "(fst b - fst a) * (fst b - fst a) + (snd b - snd a) * (snd b - snd a)"
  let ?ni = "(fst pt - fst a) * (fst b - fst a) + (snd pt - snd a) * (snd b - snd a)"
  have l: "?l = real_of_int ?li" by simp
  have n: "?n = real_of_int ?ni" by simp
  have l': "real_of_int ?li = ?l" by simp
  have n': "real_of_int ?ni = ?n" by simp
  have lnn: "0 \<le> ?l" by simp
  have len0: "(sqrt ?l = 0) = (?li = 0)" unfolding l by simp
  have lensq: "sqrt ?l * sqrt ?l = ?l" using lnn by simp
  show ?thesis
  proof (cases "?li = 0")
    case True
    then show ?thesis
      using len0
      by (simp add: pointToLineDistance_def sqScaled_def chordLen2_def Let_def power2_eq_square)
  next
    case nz: False
    then have lpos: "0 < ?l" unfolding l using lnn l by (metis less_eq_real_def of_int_eq_0_iff)
    have cl: "real_of_int (chordLen2 a b) = ?l" using nz by (simp add: chordLen2_def Let_def)
    have dist: "pointToLineDistance pt a b
                  = sqrt ((real_of_int (fst pt) - (real_of_int (fst a) + max 0 (min 1 (?n / ?l)) * ?dx))\<^sup>2
                        + (real_of_int (snd pt) - (real_of_int (snd a) + max 0 (min 1 (?n / ?l)) * ?dy))\<^sup>2)"
    proof -
      have "sqrt ?l \<noteq> 0" using nz len0 by simp
      then show ?thesis
        unfolding pointToLineDistance_def Let_def lensq by (simp only: if_False)
    qed
    consider (before) "?ni \<le> 0" | (after) "0 < ?ni" "?li \<le> ?ni" | (inside) "0 < ?ni" "?ni < ?li"
      by linarith
    then show ?thesis
    proof cases
      case before
      then have "real_of_int ?ni \<le> 0" by (simp only: of_int_le_0_iff)
      then have "?n \<le> 0" unfolding n' .
      then have "?n / ?l \<le> 0" using lpos by (simp add: divide_le_0_iff)
      then have t: "max 0 (min 1 (?n / ?l)) = 0" by simp
      have "real_of_int (sqScaled pt a b) = (?u * ?u + ?v * ?v) * ?l"
        using nz before by (auto simp add: sqScaled_def Let_def)
      then have "real_of_int (sqScaled pt a b) / real_of_int (chordLen2 a b) = ?u * ?u + ?v * ?v"
        using cl lpos by (rule scaled_quotient)
      then show ?thesis unfolding dist t by (simp add: power2_eq_square)
    next
      case after
      then have "real_of_int ?li \<le> real_of_int ?ni" by (simp only: of_int_le_iff)
      then have "?l \<le> ?n" unfolding n' l' .
      then have "1 \<le> ?n / ?l" using lpos by (simp add: le_divide_eq)
      then have t: "max 0 (min 1 (?n / ?l)) = 1" by simp
      have "real_of_int (sqScaled pt a b)
              = (real_of_int (fst pt - fst b) * real_of_int (fst pt - fst b)
                 + real_of_int (snd pt - snd b) * real_of_int (snd pt - snd b)) * ?l"
        using nz after by (auto simp add: sqScaled_def Let_def)
      then have "real_of_int (sqScaled pt a b) / real_of_int (chordLen2 a b)
              = real_of_int (fst pt - fst b) * real_of_int (fst pt - fst b)
                 + real_of_int (snd pt - snd b) * real_of_int (snd pt - snd b)"
        using cl lpos by (rule scaled_quotient)
      then show ?thesis unfolding dist t by (simp add: power2_eq_square algebra_simps)
    next
      case inside
      then have "0 < real_of_int ?ni" "real_of_int ?ni < real_of_int ?li"
        by (simp_all only: of_int_less_iff of_int_0_less_iff)
      then have "0 < ?n" "?n < ?l" unfolding n' l' .
      then have "0 < ?n / ?l" "?n / ?l < 1" using lpos by simp_all
      then have t: "max 0 (min 1 (?n / ?l)) = ?n / ?l" by simp
      have "real_of_int (sqScaled pt a b) = (?u * ?dy - ?v * ?dx)\<^sup>2"
        using nz inside by (auto simp add: sqScaled_def Let_def power2_eq_square)
      then have sq: "real_of_int (sqScaled pt a b) / real_of_int (chordLen2 a b)
                       = (?u * ?dy - ?v * ?dx)\<^sup>2 / ?l" using cl by simp
      have "(real_of_int (fst pt) - (real_of_int (fst a) + ?n / ?l * ?dx))\<^sup>2
            + (real_of_int (snd pt) - (real_of_int (snd a) + ?n / ?l * ?dy))\<^sup>2
            = (?u - ?n / ?l * ?dx)\<^sup>2 + (?v - ?n / ?l * ?dy)\<^sup>2"
        by (simp add: algebra_simps)
      also have "\<dots> = (?u * ?dy - ?v * ?dx)\<^sup>2 / ?l"
      proof -
        have "?l \<noteq> 0" using lpos by (rule less_imp_neq [THEN not_sym])
        then show ?thesis by (rule perpendicular_sq)
      qed
      finally show ?thesis unfolding dist t sq by simp
    qed
  qed
qed

lemma maxDistance_fold_scaled:
  assumes "0 < L" and "0 \<le> q" and "\<And>i. 0 \<le> g i" and "\<And>i. f i = sqrt (real_of_int (g i) / real_of_int L)"
  shows "foldl (\<lambda>(maxDist, maxIdx) i.
           let dst = f i in if dst > maxDist then (dst, i) else (maxDist, maxIdx))
           (sqrt (real_of_int q / real_of_int L), k) js
         = (sqrt (real_of_int (fst (foldl (\<lambda>(maxSq, maxIdx) i.
               let d = g i in if d > maxSq then (d, i) else (maxSq, maxIdx)) (q, k) js)) / real_of_int L),
            snd (foldl (\<lambda>(maxSq, maxIdx) i.
               let d = g i in if d > maxSq then (d, i) else (maxSq, maxIdx)) (q, k) js))"
  using assms(2)
proof (induction js arbitrary: q k)
  case Nil
  show ?case by simp
next
  case (Cons i js)
  have cmp: "(f i > sqrt (real_of_int q / real_of_int L)) = (g i > q)"
    using assms(1) by (simp add: assms(4) divide_less_cancel)
  show ?case
  proof (cases "g i > q")
    case True
    with cmp have "f i > sqrt (real_of_int q / real_of_int L)" by simp
    with True Cons.IH [of "g i" i] assms(3) [of i] show ?thesis
      by (simp add: Let_def assms(4))
  next
    case False
    with cmp have "\<not> f i > sqrt (real_of_int q / real_of_int L)" by simp
    with False Cons.IH [OF Cons.prems, of k] show ?thesis by (simp add: Let_def)
  qed
qed

lemma maxDistance_scaled:
  "maxDistance contour
     = (sqrt (real_of_int (fst (maxScaled contour))
               / real_of_int (chordLen2 (contour ! 0) (contour ! (length contour - 1)))),
        snd (maxScaled contour))"
proof -
  let ?L = "chordLen2 (contour ! 0) (contour ! (length contour - 1))"
  have "foldl (\<lambda>(maxDist, maxIdx) i.
           let dst = pointToLineDistance (contour ! i) (contour ! 0) (contour ! (length contour - 1))
           in if dst > maxDist then (dst, i) else (maxDist, maxIdx))
           (sqrt (real_of_int 0 / real_of_int ?L), 0) [1 ..< length contour - 1]
         = (sqrt (real_of_int (fst (maxScaled contour)) / real_of_int ?L), snd (maxScaled contour))"
    unfolding maxScaled_def
    by (rule maxDistance_fold_scaled)
       (simp_all add: chordLen2_pos sqScaled_nonneg pointToLineDistance_scaled)
  then show ?thesis by (simp add: maxDistance_def)
qed

text \<open>One step of approximatePolygon on a contour of at least 3 points.\<close>

lemma approximatePolygon_leaf:
  assumes "3 \<le> length contour" and "maxScaled contour = (q, k)"
      and "real_of_int q \<le> epsilon\<^sup>2 * real_of_int (chordLen2 (contour ! 0) (contour ! (length contour - 1)))"
      and "0 \<le> epsilon"
  shows "approximatePolygon contour epsilon = Some [contour ! 0, contour ! (length contour - 1)]"
proof -
  let ?L = "real_of_int (chordLen2 (contour ! 0) (contour ! (length contour - 1)))"
  have L: "0 < ?L" using chordLen2_pos by simp
  from assms(3) L have "real_of_int q / ?L \<le> epsilon\<^sup>2" by (simp add: divide_le_eq)
  then have "sqrt (real_of_int q / ?L) \<le> epsilon" using assms(4) by (simp add: real_le_lsqrt)
  then have "\<not> sqrt (real_of_int q / ?L) > epsilon" by simp
  with assms(1,2) show ?thesis
    by (subst approximatePolygon.simps) (simp add: maxDistance_scaled)
qed

lemma approximatePolygon_split:
  assumes "3 \<le> length contour" and "maxScaled contour = (q, k)"
      and "epsilon\<^sup>2 * real_of_int (chordLen2 (contour ! 0) (contour ! (length contour - 1))) < real_of_int q"
      and "0 \<le> epsilon"
      and "approximatePolygon (take (k + 1) contour) epsilon = Some left"
      and "approximatePolygon (drop k contour) epsilon = Some right"
  shows "approximatePolygon contour epsilon = Some (butlast left @ right)"
proof -
  let ?L = "real_of_int (chordLen2 (contour ! 0) (contour ! (length contour - 1)))"
  have L: "0 < ?L" using chordLen2_pos by simp
  from assms(3) L have "epsilon\<^sup>2 < real_of_int q / ?L" by (simp add: less_divide_eq)
  then have "epsilon < sqrt (real_of_int q / ?L)" by (rule real_less_rsqrt)
  with assms(1,2,5,6) show ?thesis
    by (subst approximatePolygon.simps) (simp add: maxDistance_scaled)
qed

section \<open>The corner search on a small contour\<close>

text \<open>
  When the bounding box is at most 5 pixels wide or high, \<open>minDist\<close> is at most 1 and no
  two different pixels are too close; the corner search on a contour of distinct points
  then takes the first four entries of the sorted list, whatever their order.
\<close>

lemma distinct_points_apart:
  fixes p q :: point
  assumes "p \<noteq> q"
  shows "1 \<le> sqrt (real_of_int (fst p - fst q) * real_of_int (fst p - fst q)
                     + real_of_int (snd p - snd q) * real_of_int (snd p - snd q))"
proof -
  let ?a = "fst p - fst q" and ?b = "snd p - snd q"
  from assms have "?a \<noteq> 0 \<or> ?b \<noteq> 0" by (cases p, cases q) auto
  then have "0 < ?a * ?a + ?b * ?b" by (simp add: sum_squares_gt_zero_iff)
  then have "1 \<le> ?a * ?a + ?b * ?b" by linarith
  then have "1 \<le> real_of_int (?a * ?a + ?b * ?b)" by (simp only: of_int_1_le_iff)
  then have "1 \<le> real_of_int ?a * real_of_int ?a + real_of_int ?b * real_of_int ?b" by simp
  then show ?thesis by (simp only: real_sqrt_ge_1_iff)
qed

lemma not_tooClose:
  assumes "p \<notin> set corners" and "minDist \<le> 1"
  shows "\<not> tooClose p corners minDist"
proof -
  have "\<not> sqrt (real_of_int (fst p - fst c) * real_of_int (fst p - fst c)
                 + real_of_int (snd p - snd c) * real_of_int (snd p - snd c)) < minDist"
    if "c \<in> set corners" for c
  proof -
    from that assms(1) have "p \<noteq> c" by auto
    from distinct_points_apart [OF this] assms(2) show ?thesis by linarith
  qed
  then show ?thesis by (auto simp: tooClose_def list_ex_iff Let_def)
qed

lemma selectCorners_apart:
  assumes "minDist \<le> 1"
  shows "distinct (corners @ map fst cs) \<Longrightarrow> length corners < numCorners \<Longrightarrow>
         numCorners \<le> length corners + length cs \<Longrightarrow>
           length (selectCorners cs minDist numCorners corners) = numCorners"
proof (induction cs arbitrary: corners)
  case Nil
  then show ?case by simp
next
  case (Cons c cs)
  from Cons.prems(1) have "fst c \<notin> set corners" by auto
  from not_tooClose [OF this assms] have far: "\<not> tooClose (fst c) corners minDist" .
  show ?case
  proof (cases "numCorners \<le> length (corners @ [fst c])")
    case True
    with Cons.prems(2) far show ?thesis by (simp add: Let_def)
  next
    case False
    then have lt: "length (corners @ [fst c]) < numCorners" by simp
    have "distinct ((corners @ [fst c]) @ map fst cs)" using Cons.prems(1) by simp
    moreover note lt
    moreover have "numCorners \<le> length (corners @ [fst c]) + length cs" using Cons.prems(3) by simp
    ultimately have "length (selectCorners cs minDist numCorners (corners @ [fst c])) = numCorners"
      by (rule Cons.IH)
    with False far show ?thesis by (simp add: Let_def)
  qed
qed

lemma sampleContour_small: "length contour < 100 \<Longrightarrow> sampleContour contour = contour"
  by (simp add: sampleContour_def map_nth)

lemma curvatureAt_distinct:
  assumes "distinct pts" and "i < length pts" and "7 \<le> length pts"
  shows "\<exists>k. curvatureAt pts 3 i = [(pts ! i, k, i)]"
proof -
  let ?n = "length pts"
  let ?pi = "nat ((int i - int 3 + int ?n) mod int ?n)"
  let ?ni = "(i + 3) mod ?n"
  have n0: "0 < ?n" using assms(3) by linarith
  have pi_lt: "?pi < ?n" using n0 by (simp add: nat_less_iff)
  have ni_lt: "?ni < ?n" using n0 by simp
  have pi_ne: "?pi \<noteq> i"
  proof (cases "3 \<le> i")
    case True
    have "(int i - int 3 + int ?n) mod int ?n = (int i - int 3) mod int ?n"
      by (rule mod_add_self2)
    also have "\<dots> = int i - int 3"
      by (rule mod_pos_pos_trivial) (use True assms(2) in linarith)+
    finally have "?pi = nat (int i - int 3)" by (rule arg_cong)
    with True show ?thesis by linarith
  next
    case False
    have "(int i - int 3 + int ?n) mod int ?n = int i - int 3 + int ?n"
      by (rule mod_pos_pos_trivial) (use False assms(3) in linarith)+
    then have "?pi = nat (int i - int 3 + int ?n)" by (rule arg_cong)
    with assms(3) show ?thesis by linarith
  qed
  have ni_ne: "?ni \<noteq> i"
  proof (cases "i + 3 < ?n")
    case True
    then show ?thesis by simp
  next
    case ge: False
    then have "(i + 3) mod ?n = i + 3 - ?n"
      using assms(2,3) by (simp add: mod_if)
    with assms(3) ge show ?thesis by linarith
  qed
  from assms(1) pi_lt assms(2) pi_ne have p: "pts ! ?pi \<noteq> pts ! i" by (simp add: nth_eq_iff_index_eq)
  from assms(1) ni_lt assms(2) ni_ne have q: "pts ! ?ni \<noteq> pts ! i" by (simp add: nth_eq_iff_index_eq)
  from p have "pts ! i \<noteq> pts ! ?pi" by simp
  from distinct_points_apart [OF this]
  have l1: "0 < sqrt (real_of_int (fst (pts ! i) - fst (pts ! ?pi)) * real_of_int (fst (pts ! i) - fst (pts ! ?pi))
                 + real_of_int (snd (pts ! i) - snd (pts ! ?pi)) * real_of_int (snd (pts ! i) - snd (pts ! ?pi)))"
    by linarith
  from distinct_points_apart [OF q]
  have l2: "0 < sqrt (real_of_int (fst (pts ! ?ni) - fst (pts ! i)) * real_of_int (fst (pts ! ?ni) - fst (pts ! i))
                 + real_of_int (snd (pts ! ?ni) - snd (pts ! i)) * real_of_int (snd (pts ! ?ni) - snd (pts ! i)))"
    by linarith
  show ?thesis
    unfolding curvatureAt_def Let_def using l1 l2 by (simp only: conj_commute simp_thms if_True) blast
qed


lemma curvatures_points:
  assumes "distinct pts" and "7 \<le> length pts"
  shows "map fst (concat (map (curvatureAt pts 3) [0 ..< length pts])) = pts"
proof -
  have "map fst (concat (map (curvatureAt pts 3) [0 ..< length pts]))
          = concat (map (\<lambda>i. map fst (curvatureAt pts 3 i)) [0 ..< length pts])"
    by (simp add: map_concat o_def)
  also have "\<dots> = concat (map (\<lambda>i. [pts ! i]) [0 ..< length pts])"
  proof (rule arg_cong [where f = concat], rule map_cong [OF refl])
    fix i assume "i \<in> set [0 ..< length pts]"
    then have "i < length pts" by simp
    from curvatureAt_distinct [OF assms(1) this assms(2)]
    show "map fst (curvatureAt pts 3 i) = [pts ! i]" by auto
  qed
  also have "\<dots> = map (\<lambda>i. pts ! i) [0 ..< length pts]"
    by (induction "[0 ..< length pts]") (simp_all add: concat_map_singleton)
  also have "\<dots> = pts" by (rule map_nth)
  finally show ?thesis .
qed

lemma findCorners_four:
  assumes "distinct contour" and "8 \<le> length contour" and "length contour < 80"
      and "getBoundingBox contour = Some bbox" and "min (rwidth bbox) (rheight bbox) \<le> 5"
  shows "length (findCorners contour 4) = 4"
proof -
  let ?cs = "concat (map (curvatureAt contour 3) [0 ..< length contour])"
  let ?sorted = "sort_key (\<lambda>c. - fst (snd c)) ?cs"
  let ?minDist = "real_of_int (min (rwidth bbox) (rheight bbox)) * 0.2"
  have sample: "sampleContour contour = contour"
    using assms(3) by (simp add: sampleContour_small)
  have window: "max 3 (length contour div 20) = 3" using assms(3) by simp
  have pts: "map fst ?cs = contour" using assms(1,2) by (simp add: curvatures_points)
  have "mset (map fst ?sorted) = mset (map fst ?cs)" by simp
  with pts have ms: "mset (map fst ?sorted) = mset contour" by simp
  then have d: "distinct (map fst ?sorted)" using assms(1) by (metis mset_eq_imp_distinct_iff)
  from ms have "length (map fst ?sorted) = length contour" by (metis size_mset)
  then have len: "4 \<le> length [] + length ?sorted" using assms(2) by simp
  have "real_of_int (min (rwidth bbox) (rheight bbox)) \<le> 5" using assms(5) by simp
  then have md: "?minDist \<le> 1" by simp
  have "length (selectCorners ?sorted ?minDist 4 []) = 4"
    using md by (rule selectCorners_apart) (use d len in simp_all)
  moreover have "findCorners contour 4 = selectCorners ?sorted ?minDist 4 []"
    using assms(2,4) by (simp add: findCorners_def sample window Let_def)
  ultimately show ?thesis by simp
qed

text \<open>
  Which four entries: the stable sort puts the samples of curvature \<open>pi\<close> first, in the
  order of the contour, and these are the samples where the contour runs straight.
\<close>

lemma insort_key_past:
  assumes "\<forall>a \<in> set as. f a < f x"
  shows "insort_key f x (as @ bs) = as @ insort_key f x bs"
  using assms by (induction as) auto

lemma stable_min_prefix:
  fixes f :: "'a \<Rightarrow> real"
  assumes "\<forall>x \<in> set xs. k0 \<le> f x"
  shows "sort_key f xs = filter (\<lambda>x. f x = k0) xs @ sort_key f (filter (\<lambda>x. f x \<noteq> k0) xs)"
  using assms
proof (induction xs)
  case Nil
  then show ?case by simp
next
  case (Cons x xs)
  let ?A = "filter (\<lambda>x. f x = k0) xs" and ?B = "sort_key f (filter (\<lambda>x. f x \<noteq> k0) xs)"
  from Cons have ih: "sort_key f xs = ?A @ ?B" by simp
  show ?case
  proof (cases "f x = k0")
    case True
    have "insort_key f x (?A @ ?B) = x # ?A @ ?B"
    proof (cases "?A @ ?B")
      case Nil
      then show ?thesis by simp
    next
      case front: (Cons y ys)
      then have "y \<in> set (sort_key f xs)" using ih by simp
      then have "y \<in> set xs" by simp
      with Cons.prems True have "f x \<le> f y" by simp
      with front show ?thesis by simp
    qed
    with True ih show ?thesis by simp
  next
    case False
    with Cons.prems have lt: "k0 < f x" by (simp add: less_le)
    then have "\<forall>a \<in> set ?A. f a < f x" by simp
    from insort_key_past [OF this] have "insort_key f x (?A @ ?B) = ?A @ insort_key f x ?B" .
    with False ih show ?thesis by simp
  qed
qed

lemma selectCorners_take:
  assumes "minDist \<le> 1"
  shows "distinct (corners @ map fst cs) \<Longrightarrow> length corners < numCorners \<Longrightarrow>
           selectCorners cs minDist numCorners corners
             = corners @ take (numCorners - length corners) (map fst cs)"
proof (induction cs arbitrary: corners)
  case Nil
  then show ?case by simp
next
  case (Cons c cs)
  from Cons.prems(1) have "fst c \<notin> set corners" by auto
  from not_tooClose [OF this assms] have far: "\<not> tooClose (fst c) corners minDist" .
  show ?case
  proof (cases "numCorners \<le> length (corners @ [fst c])")
    case True
    with Cons.prems(2) have "numCorners - length corners = 1" by simp
    with True far show ?thesis by (simp add: Let_def)
  next
    case False
    then have lt: "length (corners @ [fst c]) < numCorners" by simp
    have "distinct ((corners @ [fst c]) @ map fst cs)" using Cons.prems(1) by simp
    from Cons.IH [OF this lt]
    have "selectCorners cs minDist numCorners (corners @ [fst c])
            = (corners @ [fst c]) @ take (numCorners - length (corners @ [fst c])) (map fst cs)" .
    moreover from lt have "numCorners - length corners = Suc (numCorners - length (corners @ [fst c]))"
      by simp
    ultimately show ?thesis using False far by (simp add: Let_def)
  qed
qed



lemma arccos_clamp_zero:
  fixes d l :: real
  assumes "0 < l"
  shows "0 \<le> arccos (max (-1) (min 1 (d / l)))
         \<and> (arccos (max (-1) (min 1 (d / l))) = 0 \<longleftrightarrow> l \<le> d)"
proof -
  let ?c = "max (-1) (min 1 (d / l))"
  have b: "-1 \<le> ?c" "?c \<le> 1" by simp_all
  have z: "arccos ?c = 0 \<longleftrightarrow> ?c = 1"
  proof
    assume "arccos ?c = 0"
    then have "cos (arccos ?c) = 1" by simp
    with b show "?c = 1" by (simp only: cos_arccos)
  next
    assume "?c = 1"
    then show "arccos ?c = 0" by (simp only: arccos_1)
  qed
  have "?c = 1 \<longleftrightarrow> 1 \<le> d / l" by (auto simp: max_def min_def)
  also have "\<dots> \<longleftrightarrow> l \<le> d" using assms by (simp add: field_simps)
  finally have "?c = 1 \<longleftrightarrow> l \<le> d" .
  with z arccos_lbound [OF b] show ?thesis by simp
qed

lemma parallel_iff:
  fixes a b c d :: int
  assumes "0 < sqrt (real_of_int a * real_of_int a + real_of_int b * real_of_int b)"
      and "0 < sqrt (real_of_int c * real_of_int c + real_of_int d * real_of_int d)"
  shows "sqrt (real_of_int a * real_of_int a + real_of_int b * real_of_int b)
           * sqrt (real_of_int c * real_of_int c + real_of_int d * real_of_int d)
         \<le> real_of_int a * real_of_int c + real_of_int b * real_of_int d
         \<longleftrightarrow> 0 < a * c + b * d \<and> a * d - b * c = 0"
proof -
  let ?A = "real_of_int a * real_of_int a + real_of_int b * real_of_int b"
  let ?B = "real_of_int c * real_of_int c + real_of_int d * real_of_int d"
  let ?dot = "real_of_int a * real_of_int c + real_of_int b * real_of_int d"
  let ?cross = "real_of_int a * real_of_int d - real_of_int b * real_of_int c"
  have lag: "?A * ?B = ?dot * ?dot + ?cross * ?cross" by (simp add: algebra_simps)
  have pos: "0 < sqrt ?A * sqrt ?B" using assms by simp
  have AB: "sqrt ?A * sqrt ?B = sqrt (?A * ?B)" by (simp add: real_sqrt_mult)
  have "sqrt ?A * sqrt ?B \<le> ?dot \<longleftrightarrow> 0 < ?dot \<and> ?cross = 0"
  proof
    assume le: "sqrt ?A * sqrt ?B \<le> ?dot"
    with pos have dp: "0 < ?dot" by linarith
    from le AB have "sqrt (?A * ?B) \<le> ?dot" by simp
    then have "?A * ?B \<le> ?dot * ?dot"
      using dp by (metis less_eq_real_def power2_eq_square real_sqrt_le_iff real_sqrt_abs2 abs_of_pos real_sqrt_mult)
    with lag have "?cross * ?cross \<le> 0" by linarith
    then have "?cross = 0" by (metis mult_le_0_iff linorder_linear order_antisym)
    with dp show "0 < ?dot \<and> ?cross = 0" by simp
  next
    assume h: "0 < ?dot \<and> ?cross = 0"
    with lag have "?A * ?B = ?dot * ?dot" by simp
    then have "sqrt (?A * ?B) = \<bar>?dot\<bar>" by (simp add: real_sqrt_abs2)
    with h AB show "sqrt ?A * sqrt ?B \<le> ?dot" by simp
  qed
  moreover have "0 < ?dot \<longleftrightarrow> 0 < a * c + b * d"
  proof -
    have "?dot = real_of_int (a * c + b * d)" by simp
    then show ?thesis by (simp only: of_int_0_less_iff)
  qed
  moreover have "?cross = 0 \<longleftrightarrow> a * d - b * c = 0"
  proof -
    have "?cross = real_of_int (a * d - b * c)" by simp
    then show ?thesis by (simp only: of_int_eq_0_iff)
  qed
  ultimately show ?thesis by simp
qed

lemma singleton_if:
  "(if c then [(a, b, d)] else []) = [(p, k, j)] \<Longrightarrow> c \<and> k = b"
  by (simp split: if_splits)

lemma curvature_straight:
  assumes "curvatureAt pts w i = [(p, k, j)]"
  shows "k \<le> pi \<and> (k = pi \<longleftrightarrow> straightAt pts w i)"
proof -
  define a where "a = fst (pts ! i) - fst (pts ! nat ((int i - int w + int (length pts)) mod int (length pts)))"
  define b where "b = snd (pts ! i) - snd (pts ! nat ((int i - int w + int (length pts)) mod int (length pts)))"
  define c where "c = fst (pts ! ((i + w) mod length pts)) - fst (pts ! i)"
  define d where "d = snd (pts ! ((i + w) mod length pts)) - snd (pts ! i)"
  define l1 where "l1 = sqrt (real_of_int a * real_of_int a + real_of_int b * real_of_int b)"
  define l2 where "l2 = sqrt (real_of_int c * real_of_int c + real_of_int d * real_of_int d)"
  define dot where "dot = real_of_int a * real_of_int c + real_of_int b * real_of_int d"
  define ang where "ang = arccos (max (-1) (min 1 (dot / (l1 * l2))))"
  have eq: "curvatureAt pts w i = (if 0 < l1 \<and> 0 < l2 then [(pts ! i, pi - ang, i)] else [])"
    unfolding curvatureAt_def Let_def ang_def dot_def l1_def l2_def a_def b_def c_def d_def
    by (rule refl)
  have st: "straightAt pts w i \<longleftrightarrow> 0 < a * c + b * d \<and> a * d - b * c = 0"
    unfolding straightAt_def Let_def a_def b_def c_def d_def by (rule refl)
  from assms eq have "(if 0 < l1 \<and> 0 < l2 then [(pts ! i, pi - ang, i)] else []) = [(p, k, j)]"
    by (simp only:)
  from singleton_if [OF this] have l: "0 < l1" "0 < l2" and k: "k = pi - ang" by blast+
  from l have pos: "0 < l1 * l2" by simp
  from arccos_clamp_zero [OF pos, of dot]
  have ac: "0 \<le> ang" and z: "ang = 0 \<longleftrightarrow> l1 * l2 \<le> dot" unfolding ang_def by blast+
  from l have "l1 * l2 \<le> dot \<longleftrightarrow> 0 < a * c + b * d \<and> a * d - b * c = 0"
    unfolding l1_def l2_def dot_def by (rule parallel_iff)
  with st z have "ang = 0 \<longleftrightarrow> straightAt pts w i" by blast
  with k ac show ?thesis by auto
qed


lemma concat_map_if:
  "concat (map (\<lambda>i. if Q i then [g i] else []) xs) = map g (filter Q xs)"
  by (induction xs) simp_all

lemma straight_points:
  assumes "distinct pts" and "7 \<le> length pts"
  shows "map fst (filter (\<lambda>c. - fst (snd c) = - pi)
                    (concat (map (curvatureAt pts 3) [0 ..< length pts])))
           = map (\<lambda>i. pts ! i) (filter (straightAt pts 3) [0 ..< length pts])"
proof -
  let ?P = "\<lambda>c :: point \<times> real \<times> nat. - fst (snd c) = - pi"
  have "map fst (filter ?P (concat (map (curvatureAt pts 3) [0 ..< length pts])))
          = concat (map (\<lambda>i. map fst (filter ?P (curvatureAt pts 3 i))) [0 ..< length pts])"
    by (simp add: filter_concat map_concat o_def)
  also have "\<dots> = concat (map (\<lambda>i. if straightAt pts 3 i then [pts ! i] else []) [0 ..< length pts])"
  proof (rule arg_cong [where f = concat], rule map_cong [OF refl])
    fix i assume "i \<in> set [0 ..< length pts]"
    then have "i < length pts" by simp
    from curvatureAt_distinct [OF assms(1) this assms(2)]
    obtain k where c: "curvatureAt pts 3 i = [(pts ! i, k, i)]" by blast
    from curvature_straight [OF this] have "k = pi \<longleftrightarrow> straightAt pts 3 i" by blast
    with c show "map fst (filter ?P (curvatureAt pts 3 i))
                   = (if straightAt pts 3 i then [pts ! i] else [])" by simp
  qed
  also have "\<dots> = map (\<lambda>i. pts ! i) (filter (straightAt pts 3) [0 ..< length pts])"
    by (rule concat_map_if)
  finally show ?thesis .
qed

lemma curvatures_bounded:
  assumes "distinct pts" and "7 \<le> length pts"
  shows "\<forall>c \<in> set (concat (map (curvatureAt pts 3) [0 ..< length pts])). - pi \<le> - fst (snd c)"
proof
  fix c assume "c \<in> set (concat (map (curvatureAt pts 3) [0 ..< length pts]))"
  then obtain i where i: "i < length pts" and c: "c \<in> set (curvatureAt pts 3 i)" by auto
  from curvatureAt_distinct [OF assms(1) i assms(2)]
  obtain k where k: "curvatureAt pts 3 i = [(pts ! i, k, i)]" by blast
  from curvature_straight [OF this] have "k \<le> pi" by blast
  with c k show "- pi \<le> - fst (snd c)" by simp
qed

lemma findCorners_straight:
  assumes "distinct contour" and "8 \<le> length contour" and "length contour < 80"
      and "getBoundingBox contour = Some bbox" and "min (rwidth bbox) (rheight bbox) \<le> 5"
      and "map (\<lambda>i. contour ! i) (filter (straightAt contour 3) [0 ..< length contour]) = ps"
      and "length ps = 4"
  shows "findCorners contour 4 = ps"
proof -
  let ?f = "\<lambda>c :: point \<times> real \<times> nat. - fst (snd c)"
  let ?cs = "concat (map (curvatureAt contour 3) [0 ..< length contour])"
  let ?sorted = "sort_key ?f ?cs"
  let ?minDist = "real_of_int (min (rwidth bbox) (rheight bbox)) * 0.2"
  have sample: "sampleContour contour = contour"
    using assms(3) by (simp add: sampleContour_small)
  have window: "max 3 (length contour div 20) = 3" using assms(3) by simp
  have pts: "map fst ?cs = contour" using assms(1,2) by (simp add: curvatures_points)
  have "mset (map fst ?sorted) = mset (map fst ?cs)" by simp
  with pts have ms: "mset (map fst ?sorted) = mset contour" by simp
  then have d: "distinct (map fst ?sorted)" using assms(1) by (metis mset_eq_imp_distinct_iff)
  have "real_of_int (min (rwidth bbox) (rheight bbox)) \<le> 5" using assms(5) by simp
  then have md: "?minDist \<le> 1" by simp
  have sel: "selectCorners ?sorted ?minDist 4 [] = [] @ take (4 - length ([] :: point list)) (map fst ?sorted)"
    using md by (rule selectCorners_take) (use d in simp_all)
  have bound: "\<forall>c \<in> set ?cs. - pi \<le> ?f c"
    using assms(1,2) by (intro curvatures_bounded) simp_all
  have "?sorted = filter (\<lambda>c. ?f c = - pi) ?cs @ sort_key ?f (filter (\<lambda>c. ?f c \<noteq> - pi) ?cs)"
    using bound by (rule stable_min_prefix)
  then have "map fst ?sorted
               = map fst (filter (\<lambda>c. ?f c = - pi) ?cs)
                 @ map fst (sort_key ?f (filter (\<lambda>c. ?f c \<noteq> - pi) ?cs))"
    by (simp only: map_append)
  also have "map fst (filter (\<lambda>c. ?f c = - pi) ?cs) = ps"
    using straight_points [of contour] assms(1,2,6) by simp
  finally have "take 4 (map fst ?sorted) = ps" using assms(7) by simp
  with sel have "selectCorners ?sorted ?minDist 4 [] = ps" by simp
  moreover have "findCorners contour 4 = selectCorners ?sorted ?minDist 4 []"
    using assms(2,4) by (simp add: findCorners_def sample window Let_def)
  ultimately show ?thesis by simp
qed


section \<open>The boundaries of a result\<close>

lemma boundary_of_contour:
  assumes "c \<in> set (findContours processed width height)"
      and "processContour minArea maxArea c = Some (Some b0)"
  shows "minArea \<le> b_area b0 \<and> b_area b0 \<le> maxArea
         \<and> rheight (b_boundingRect b0) \<noteq> 0
         \<and> b_aspectRatio b0 = Num (real_of_int (rwidth (b_boundingRect b0))
                                    / real_of_int (rheight (b_boundingRect b0)))
         \<and> 0.3 \<le> real_of_int (rwidth (b_boundingRect b0)) / real_of_int (rheight (b_boundingRect b0))
         \<and> real_of_int (rwidth (b_boundingRect b0)) / real_of_int (rheight (b_boundingRect b0)) \<le> 3.5
         \<and> getBoundingBox c = Some (b_boundingRect b0)
         \<and> b_area b0 = calculateContourArea c"
proof -
  from processContour_pushed [OF assms(2)]
  have pf: "passesFilter minArea maxArea c"
    and bb: "getBoundingBox c = Some (b_boundingRect b0)"
    and ar: "b_area b0 = calculateContourArea c"
    and asp: "b_aspectRatio b0 = aspectRatioOf c" by simp_all
  from pf have area: "minArea \<le> calculateContourArea c" "calculateContourArea c \<le> maxArea"
    and ratio: "\<not> (jslt (aspectRatioOf c) 0.3 \<or> jsgt (aspectRatioOf c) 3.5)"
    by (auto simp: passesFilter_def Let_def split: if_splits)
  from assms(1) findContours_tracedFrom have "tracedFrom processed width height c" by blast
  from aspect_of_traced [OF this ratio] bb area ar asp show ?thesis by auto
qed

text \<open>
  Claim C6. detectDocuments returns, and every boundary of its result has an area between
  \<open>minAreaRatio * W * H\<close> and \<open>maxAreaRatio * W * H\<close>, where the two ratios are those
  of the options passed, 0.02 and 0.95 where the options do not give them, and an aspect
  ratio between 0.3 and 3.5; the aspect ratio is the width of the bounding box of the
  contour divided by its height, which is not zero, and the area is that of the contour.
\<close>

theorem boundaries_area_aspect:
  "\<exists>res. detectDocuments opts width height processed stages = Some res
     \<and> (\<forall>b \<in> set (r_boundaries res).
           (case o_minAreaRatio opts of None \<Rightarrow> 0.02 | Some ratio \<Rightarrow> ratio) * real (width * height)
             \<le> b_area b
         \<and> b_area b
             \<le> (case o_maxAreaRatio opts of None \<Rightarrow> 0.95 | Some ratio \<Rightarrow> ratio) * real (width * height)
         \<and> rheight (b_boundingRect b) \<noteq> 0
         \<and> b_aspectRatio b = Num (real_of_int (rwidth (b_boundingRect b))
                                   / real_of_int (rheight (b_boundingRect b)))
         \<and> 0.3 \<le> real_of_int (rwidth (b_boundingRect b)) / real_of_int (rheight (b_boundingRect b))
         \<and> real_of_int (rwidth (b_boundingRect b)) / real_of_int (rheight (b_boundingRect b)) \<le> 3.5
         \<and> (\<exists>c \<in> set (findContours processed width height).
                getBoundingBox c = Some (b_boundingRect b) \<and> b_area b = calculateContourArea c))"
proof -
  let ?lo = "case o_minAreaRatio opts of None \<Rightarrow> 0.02 | Some ratio \<Rightarrow> ratio"
  let ?hi = "case o_maxAreaRatio opts of None \<Rightarrow> 0.95 | Some ratio \<Rightarrow> ratio"
  let ?mn = "real (width * height) * minAreaRatioOf opts"
  let ?mx = "real (width * height) * maxAreaRatioOf opts"
  have mn: "?mn = ?lo * real (width * height)"
    unfolding minAreaRatioOf_def by (rule mult.commute)
  have mx: "?mx = ?hi * real (width * height)"
    unfolding maxAreaRatioOf_def by (rule mult.commute)
  from detectDocuments_origin [of opts width height processed stages] obtain res where
    res: "detectDocuments opts width height processed stages = Some res"
    and origin: "\<forall>b \<in> set (r_boundaries res). \<exists>c \<in> set (findContours processed width height).
                   processContour ?mn ?mx c = Some (Some (b\<lparr>b_type := None\<rparr>))"
    by blast
  have "?lo * real (width * height) \<le> b_area b \<and> b_area b \<le> ?hi * real (width * height)
         \<and> rheight (b_boundingRect b) \<noteq> 0
         \<and> b_aspectRatio b = Num (real_of_int (rwidth (b_boundingRect b))
                                   / real_of_int (rheight (b_boundingRect b)))
         \<and> 0.3 \<le> real_of_int (rwidth (b_boundingRect b)) / real_of_int (rheight (b_boundingRect b))
         \<and> real_of_int (rwidth (b_boundingRect b)) / real_of_int (rheight (b_boundingRect b)) \<le> 3.5
         \<and> (\<exists>c \<in> set (findContours processed width height).
                getBoundingBox c = Some (b_boundingRect b) \<and> b_area b = calculateContourArea c)"
    if "b \<in> set (r_boundaries res)" for b
  proof -
    from origin that obtain c where c: "c \<in> set (findContours processed width height)"
      "processContour ?mn ?mx c = Some (Some (b\<lparr>b_type := None\<rparr>))" by blast
    from boundary_of_contour [OF c] c(1)
    have "?mn \<le> b_area b \<and> b_area b \<le> ?mx
         \<and> rheight (b_boundingRect b) \<noteq> 0
         \<and> b_aspectRatio b = Num (real_of_int (rwidth (b_boundingRect b))
                                   / real_of_int (rheight (b_boundingRect b)))
         \<and> 0.3 \<le> real_of_int (rwidth (b_boundingRect b)) / real_of_int (rheight (b_boundingRect b))
         \<and> real_of_int (rwidth (b_boundingRect b)) / real_of_int (rheight (b_boundingRect b)) \<le> 3.5
         \<and> (\<exists>c \<in> set (findContours processed width height).
                getBoundingBox c = Some (b_boundingRect b) \<and> b_area b = calculateContourArea c)"
      by auto
    then show ?thesis unfolding mn mx .
  qed
  with res show ?thesis by blast
qed

text \<open>
  Claim C9. A contour of findContours whose bounding box has height 0 never passes the
  two tests at the head of the loop over the contours, whatever the area limits, and
  nothing is pushed for it: its points differ, so its width is positive and the quotient
  \<open>width / 0\<close> is Infinity, above 3.5. Hence no boundary of a result has a bounding box
  of height 0, and the aspect ratio of every boundary is a number.
\<close>

theorem zero_height_contour_discarded:
  "(\<forall>c \<in> set (findContours processed width height).
      \<forall>bbox. getBoundingBox c = Some bbox \<and> rheight bbox = 0 \<longrightarrow>
        \<not> passesFilter minArea maxArea c \<and> processContour minArea maxArea c = Some None)
   \<and> (\<exists>res. detectDocuments opts width height processed stages = Some res
         \<and> (\<forall>b \<in> set (r_boundaries res).
               rheight (b_boundingRect b) \<noteq> 0 \<and> (\<exists>v. b_aspectRatio b = Num v)))"
proof -
  have "\<not> passesFilter minArea maxArea c \<and> processContour minArea maxArea c = Some None"
    if c: "c \<in> set (findContours processed width height)"
      and bb: "getBoundingBox c = Some bbox" and z: "rheight bbox = 0" for c bbox
  proof -
    from c findContours_tracedFrom have tr: "tracedFrom processed width height c" by blast
    have "\<not> passesFilter minArea maxArea c"
    proof
      assume "passesFilter minArea maxArea c"
      then have "\<not> (jslt (aspectRatioOf c) 0.3 \<or> jsgt (aspectRatioOf c) 3.5)"
        by (auto simp: passesFilter_def Let_def split: if_splits)
      from aspect_of_traced [OF tr this] bb z show False by auto
    qed
    then show ?thesis by (simp add: processContour_def)
  qed
  moreover
  let ?mn = "real (width * height) * minAreaRatioOf opts"
  let ?mx = "real (width * height) * maxAreaRatioOf opts"
  from detectDocuments_origin [of opts width height processed stages] obtain res where
    res: "detectDocuments opts width height processed stages = Some res"
    and origin: "\<forall>b \<in> set (r_boundaries res). \<exists>c \<in> set (findContours processed width height).
                   processContour ?mn ?mx c = Some (Some (b\<lparr>b_type := None\<rparr>))"
    by blast
  have "rheight (b_boundingRect b) \<noteq> 0 \<and> (\<exists>v. b_aspectRatio b = Num v)"
    if "b \<in> set (r_boundaries res)" for b
  proof -
    from origin that obtain c where c: "c \<in> set (findContours processed width height)"
      "processContour ?mn ?mx c = Some (Some (b\<lparr>b_type := None\<rparr>))" by blast
    from boundary_of_contour [OF c] show ?thesis by auto
  qed
  with res have "\<exists>res. detectDocuments opts width height processed stages = Some res
         \<and> (\<forall>b \<in> set (r_boundaries res).
               rheight (b_boundingRect b) \<noteq> 0 \<and> (\<exists>v. b_aspectRatio b = Num v))" by blast
  ultimately show ?thesis by blast
qed

text \<open>
  Claim C8. detectDocuments returns, and every boundary of its result comes from a
  contour and the approximation chosen for it, of 4 to 8 points. With exactly 4 points the
  boundary holds them sorted by their angle around the centroid (the mean of the four
  points; the angle is that of the vector from the centroid to the point, measured from
  the positive x-axis, between \<open>-pi\<close> and \<open>pi\<close>), ascending, and rotated so that a point
  with the least \<open>x + y\<close> is first; with 5 to 8 points it holds them in the order of the
  approximation.
\<close>

theorem quad_points_ordered:
  "\<exists>res. detectDocuments opts width height processed stages = Some res
     \<and> (\<forall>b \<in> set (r_boundaries res).
           \<exists>c \<in> set (findContours processed width height).
             \<exists>approx. chooseApprox c = Some (Some approx)
               \<and> 4 \<le> length approx \<and> length approx \<le> 8
               \<and> b_numVertices b = length approx
               \<and> (if length approx = 4 then orderedQuadSpec approx (b_points b)
                   else b_points b = approx))"
proof -
  let ?mn = "real (width * height) * minAreaRatioOf opts"
  let ?mx = "real (width * height) * maxAreaRatioOf opts"
  from detectDocuments_origin [of opts width height processed stages] obtain res where
    res: "detectDocuments opts width height processed stages = Some res"
    and origin: "\<forall>b \<in> set (r_boundaries res). \<exists>c \<in> set (findContours processed width height).
                   processContour ?mn ?mx c = Some (Some (b\<lparr>b_type := None\<rparr>))"
    by blast
  have "\<exists>c \<in> set (findContours processed width height).
             \<exists>approx. chooseApprox c = Some (Some approx)
               \<and> 4 \<le> length approx \<and> length approx \<le> 8
               \<and> b_numVertices b = length approx
               \<and> (if length approx = 4 then orderedQuadSpec approx (b_points b)
                   else b_points b = approx)"
    if "b \<in> set (r_boundaries res)" for b
  proof -
    from origin that obtain c where c: "c \<in> set (findContours processed width height)"
      "processContour ?mn ?mx c = Some (Some (b\<lparr>b_type := None\<rparr>))" by blast
    from processContour_pushed [OF c(2)] obtain approx where
      a: "chooseApprox c = Some (Some approx)" "4 \<le> length approx" "length approx \<le> 8"
         "b_numVertices b = length approx"
         "b_points b = (if length approx = 4 then orderQuadPoints approx else approx)"
      by auto
    have "if length approx = 4 then orderedQuadSpec approx (b_points b) else b_points b = approx"
      using a(5) orderQuadPoints_spec [of approx] by simp
    with a c(1) show ?thesis by blast
  qed
  with res show ?thesis by blast
qed

section \<open>The pipeline on the mask \<open>maskL\<close>\<close>

lemma maskL_contours: "findContours maskL 14 7 = [contourL]"
  by code_simp

lemma contourL_distinct: "distinct contourL"
  by code_simp

lemma contourL_length: "length contourL = 27"
  by code_simp

lemma contourL_bbox: "getBoundingBox contourL = Some \<lparr>rx = 1, ry = 1, rwidth = 11, rheight = 4\<rparr>"
  by (simp add: getBoundingBox_def contourL_def)

lemma upt_27: "[0 ..< 27] = [0, 1, 2, 3, 4, 5, 6, 7, 8, 9, 10, 11, 12, 13, 14, 15, 16, 17, 18, 19,
                            20, 21, 22, 23, 24, 25, 26::nat]"
  by code_simp

lemma contourL_area: "calculateContourArea contourL = 69 / 2"
  by (simp add: calculateContourArea_def contourL_def upt_27 Let_def)

lemma contourL_perimeter: "getContourPerimeter contourL = 24 + 3 * sqrt 2"
  by (simp add: getContourPerimeter_def contourL_def upt_27 Let_def)

text \<open>
  approximatePolygon on \<open>contourL\<close>, node by node of its recursion, for every epsilon
  whose square lies between 79/1000 and 2.
\<close>

lemma approxL_nlll:
  assumes "0 \<le> epsilon" and "79 / 1000 \<le> epsilon\<^sup>2" and "epsilon\<^sup>2 \<le> 2"
  shows "approximatePolygon [(8, 1), (9, 1), (10, 1), (11, 1), (12, 1)] epsilon = Some [(8, 1), (12, 1)]"
proof -
  have m: "maxScaled [(8, 1), (9, 1), (10, 1), (11, 1), (12, 1)] = (0, 0)"
    by code_simp
  have c: "chordLen2 (8, 1) (12, 1) = 16"
    by code_simp
  have e: "0 \<le> epsilon\<^sup>2 * 16" by simp
  show ?thesis
    using approximatePolygon_leaf [of "[(8, 1), (9, 1), (10, 1), (11, 1), (12, 1)]" 0 0 epsilon] m c e assms(1)
    by simp
qed

lemma approxL_nllr:
  assumes "0 \<le> epsilon" and "79 / 1000 \<le> epsilon\<^sup>2" and "epsilon\<^sup>2 \<le> 2"
  shows "approximatePolygon [(12, 1), (12, 2), (12, 3)] epsilon = Some [(12, 1), (12, 3)]"
proof -
  have m: "maxScaled [(12, 1), (12, 2), (12, 3)] = (0, 0)"
    by code_simp
  have c: "chordLen2 (12, 1) (12, 3) = 4"
    by code_simp
  have e: "0 \<le> epsilon\<^sup>2 * 4" by simp
  show ?thesis
    using approximatePolygon_leaf [of "[(12, 1), (12, 2), (12, 3)]" 0 0 epsilon] m c e assms(1)
    by simp
qed

lemma approxL_nll:
  assumes "0 \<le> epsilon" and "79 / 1000 \<le> epsilon\<^sup>2" and "epsilon\<^sup>2 \<le> 2"
  shows "approximatePolygon [(8, 1), (9, 1), (10, 1), (11, 1), (12, 1), (12, 2), (12, 3)] epsilon = Some [(8, 1), (12, 1), (12, 3)]"
proof -
  have m: "maxScaled [(8, 1), (9, 1), (10, 1), (11, 1), (12, 1), (12, 2), (12, 3)] = (64, 4)"
    by code_simp
  have c: "chordLen2 (8, 1) (12, 3) = 20"
    by code_simp
  have e: "epsilon\<^sup>2 * 20 < 64" using assms(3) by linarith
  have l: "approximatePolygon (take (4 + 1) [(8, 1), (9, 1), (10, 1), (11, 1), (12, 1), (12, 2), (12, 3)]) epsilon = Some [(8, 1), (12, 1)]"
    using approxL_nlll [OF assms] by simp
  have r: "approximatePolygon (drop 4 [(8, 1), (9, 1), (10, 1), (11, 1), (12, 1), (12, 2), (12, 3)]) epsilon = Some [(12, 1), (12, 3)]"
    using approxL_nllr [OF assms] by simp
  show ?thesis
    using approximatePolygon_split [of "[(8, 1), (9, 1), (10, 1), (11, 1), (12, 1), (12, 2), (12, 3)]" 64 4 epsilon "[(8, 1), (12, 1)]" "[(12, 1), (12, 3)]"] m c e assms(1) l r
    by simp
qed

lemma approxL_nlrl:
  assumes "0 \<le> epsilon" and "79 / 1000 \<le> epsilon\<^sup>2" and "epsilon\<^sup>2 \<le> 2"
  shows "approximatePolygon [(12, 3), (11, 4), (10, 4), (9, 5)] epsilon = Some [(12, 3), (9, 5)]"
proof -
  have m: "maxScaled [(12, 3), (11, 4), (10, 4), (9, 5)] = (1, 1)"
    by code_simp
  have c: "chordLen2 (12, 3) (9, 5) = 13"
    by code_simp
  have e: "1 \<le> epsilon\<^sup>2 * 13" using assms(2) by linarith
  show ?thesis
    using approximatePolygon_leaf [of "[(12, 3), (11, 4), (10, 4), (9, 5)]" 1 1 epsilon] m c e assms(1)
    by simp
qed

lemma approxL_nlrr:
  assumes "0 \<le> epsilon" and "79 / 1000 \<le> epsilon\<^sup>2" and "epsilon\<^sup>2 \<le> 2"
  shows "approximatePolygon [(9, 5), (8, 5), (7, 5), (6, 5), (5, 5), (4, 5), (3, 5), (2, 5), (1, 5)] epsilon = Some [(9, 5), (1, 5)]"
proof -
  have m: "maxScaled [(9, 5), (8, 5), (7, 5), (6, 5), (5, 5), (4, 5), (3, 5), (2, 5), (1, 5)] = (0, 0)"
    by code_simp
  have c: "chordLen2 (9, 5) (1, 5) = 64"
    by code_simp
  have e: "0 \<le> epsilon\<^sup>2 * 64" by simp
  show ?thesis
    using approximatePolygon_leaf [of "[(9, 5), (8, 5), (7, 5), (6, 5), (5, 5), (4, 5), (3, 5), (2, 5), (1, 5)]" 0 0 epsilon] m c e assms(1)
    by simp
qed

lemma approxL_nlr:
  assumes "0 \<le> epsilon" and "79 / 1000 \<le> epsilon\<^sup>2" and "epsilon\<^sup>2 \<le> 2"
  shows "approximatePolygon [(12, 3), (11, 4), (10, 4), (9, 5), (8, 5), (7, 5), (6, 5), (5, 5), (4, 5), (3, 5), (2, 5), (1, 5)] epsilon = Some [(12, 3), (9, 5), (1, 5)]"
proof -
  have m: "maxScaled [(12, 3), (11, 4), (10, 4), (9, 5), (8, 5), (7, 5), (6, 5), (5, 5), (4, 5), (3, 5), (2, 5), (1, 5)] = (256, 3)"
    by code_simp
  have c: "chordLen2 (12, 3) (1, 5) = 125"
    by code_simp
  have e: "epsilon\<^sup>2 * 125 < 256" using assms(3) by linarith
  have l: "approximatePolygon (take (3 + 1) [(12, 3), (11, 4), (10, 4), (9, 5), (8, 5), (7, 5), (6, 5), (5, 5), (4, 5), (3, 5), (2, 5), (1, 5)]) epsilon = Some [(12, 3), (9, 5)]"
    using approxL_nlrl [OF assms] by simp
  have r: "approximatePolygon (drop 3 [(12, 3), (11, 4), (10, 4), (9, 5), (8, 5), (7, 5), (6, 5), (5, 5), (4, 5), (3, 5), (2, 5), (1, 5)]) epsilon = Some [(9, 5), (1, 5)]"
    using approxL_nlrr [OF assms] by simp
  show ?thesis
    using approximatePolygon_split [of "[(12, 3), (11, 4), (10, 4), (9, 5), (8, 5), (7, 5), (6, 5), (5, 5), (4, 5), (3, 5), (2, 5), (1, 5)]" 256 3 epsilon "[(12, 3), (9, 5)]" "[(9, 5), (1, 5)]"] m c e assms(1) l r
    by simp
qed

lemma approxL_nl:
  assumes "0 \<le> epsilon" and "79 / 1000 \<le> epsilon\<^sup>2" and "epsilon\<^sup>2 \<le> 2"
  shows "approximatePolygon [(8, 1), (9, 1), (10, 1), (11, 1), (12, 1), (12, 2), (12, 3), (11, 4), (10, 4), (9, 5), (8, 5), (7, 5), (6, 5), (5, 5), (4, 5), (3, 5), (2, 5), (1, 5)] epsilon = Some [(8, 1), (12, 1), (12, 3), (9, 5), (1, 5)]"
proof -
  have m: "maxScaled [(8, 1), (9, 1), (10, 1), (11, 1), (12, 1), (12, 2), (12, 3), (11, 4), (10, 4), (9, 5), (8, 5), (7, 5), (6, 5), (5, 5), (4, 5), (3, 5), (2, 5), (1, 5)] = (1300, 6)"
    by code_simp
  have c: "chordLen2 (8, 1) (1, 5) = 65"
    by code_simp
  have e: "epsilon\<^sup>2 * 65 < 1300" using assms(3) by linarith
  have l: "approximatePolygon (take (6 + 1) [(8, 1), (9, 1), (10, 1), (11, 1), (12, 1), (12, 2), (12, 3), (11, 4), (10, 4), (9, 5), (8, 5), (7, 5), (6, 5), (5, 5), (4, 5), (3, 5), (2, 5), (1, 5)]) epsilon = Some [(8, 1), (12, 1), (12, 3)]"
    using approxL_nll [OF assms] by simp
  have r: "approximatePolygon (drop 6 [(8, 1), (9, 1), (10, 1), (11, 1), (12, 1), (12, 2), (12, 3), (11, 4), (10, 4), (9, 5), (8, 5), (7, 5), (6, 5), (5, 5), (4, 5), (3, 5), (2, 5), (1, 5)]) epsilon = Some [(12, 3), (9, 5), (1, 5)]"
    using approxL_nlr [OF assms] by simp
  show ?thesis
    using approximatePolygon_split [of "[(8, 1), (9, 1), (10, 1), (11, 1), (12, 1), (12, 2), (12, 3), (11, 4), (10, 4), (9, 5), (8, 5), (7, 5), (6, 5), (5, 5), (4, 5), (3, 5), (2, 5), (1, 5)]" 1300 6 epsilon "[(8, 1), (12, 1), (12, 3)]" "[(12, 3), (9, 5), (1, 5)]"] m c e assms(1) l r
    by simp
qed

lemma approxL_nrl:
  assumes "0 \<le> epsilon" and "79 / 1000 \<le> epsilon\<^sup>2" and "epsilon\<^sup>2 \<le> 2"
  shows "approximatePolygon [(1, 5), (1, 4), (1, 3), (1, 2)] epsilon = Some [(1, 5), (1, 2)]"
proof -
  have m: "maxScaled [(1, 5), (1, 4), (1, 3), (1, 2)] = (0, 0)"
    by code_simp
  have c: "chordLen2 (1, 5) (1, 2) = 9"
    by code_simp
  have e: "0 \<le> epsilon\<^sup>2 * 9" by simp
  show ?thesis
    using approximatePolygon_leaf [of "[(1, 5), (1, 4), (1, 3), (1, 2)]" 0 0 epsilon] m c e assms(1)
    by simp
qed

lemma approxL_nrr:
  assumes "0 \<le> epsilon" and "79 / 1000 \<le> epsilon\<^sup>2" and "epsilon\<^sup>2 \<le> 2"
  shows "approximatePolygon [(1, 2), (2, 2), (3, 2), (4, 2), (5, 2), (6, 2), (7, 2)] epsilon = Some [(1, 2), (7, 2)]"
proof -
  have m: "maxScaled [(1, 2), (2, 2), (3, 2), (4, 2), (5, 2), (6, 2), (7, 2)] = (0, 0)"
    by code_simp
  have c: "chordLen2 (1, 2) (7, 2) = 36"
    by code_simp
  have e: "0 \<le> epsilon\<^sup>2 * 36" by simp
  show ?thesis
    using approximatePolygon_leaf [of "[(1, 2), (2, 2), (3, 2), (4, 2), (5, 2), (6, 2), (7, 2)]" 0 0 epsilon] m c e assms(1)
    by simp
qed

lemma approxL_nr:
  assumes "0 \<le> epsilon" and "79 / 1000 \<le> epsilon\<^sup>2" and "epsilon\<^sup>2 \<le> 2"
  shows "approximatePolygon [(1, 5), (1, 4), (1, 3), (1, 2), (2, 2), (3, 2), (4, 2), (5, 2), (6, 2), (7, 2)] epsilon = Some [(1, 5), (1, 2), (7, 2)]"
proof -
  have m: "maxScaled [(1, 5), (1, 4), (1, 3), (1, 2), (2, 2), (3, 2), (4, 2), (5, 2), (6, 2), (7, 2)] = (324, 3)"
    by code_simp
  have c: "chordLen2 (1, 5) (7, 2) = 45"
    by code_simp
  have e: "epsilon\<^sup>2 * 45 < 324" using assms(3) by linarith
  have l: "approximatePolygon (take (3 + 1) [(1, 5), (1, 4), (1, 3), (1, 2), (2, 2), (3, 2), (4, 2), (5, 2), (6, 2), (7, 2)]) epsilon = Some [(1, 5), (1, 2)]"
    using approxL_nrl [OF assms] by simp
  have r: "approximatePolygon (drop 3 [(1, 5), (1, 4), (1, 3), (1, 2), (2, 2), (3, 2), (4, 2), (5, 2), (6, 2), (7, 2)]) epsilon = Some [(1, 2), (7, 2)]"
    using approxL_nrr [OF assms] by simp
  show ?thesis
    using approximatePolygon_split [of "[(1, 5), (1, 4), (1, 3), (1, 2), (2, 2), (3, 2), (4, 2), (5, 2), (6, 2), (7, 2)]" 324 3 epsilon "[(1, 5), (1, 2)]" "[(1, 2), (7, 2)]"] m c e assms(1) l r
    by simp
qed

lemma approxL_n:
  assumes "0 \<le> epsilon" and "79 / 1000 \<le> epsilon\<^sup>2" and "epsilon\<^sup>2 \<le> 2"
  shows "approximatePolygon [(8, 1), (9, 1), (10, 1), (11, 1), (12, 1), (12, 2), (12, 3), (11, 4), (10, 4), (9, 5), (8, 5), (7, 5), (6, 5), (5, 5), (4, 5), (3, 5), (2, 5), (1, 5), (1, 4), (1, 3), (1, 2), (2, 2), (3, 2), (4, 2), (5, 2), (6, 2), (7, 2)] epsilon = Some [(8, 1), (12, 1), (12, 3), (9, 5), (1, 5), (1, 2), (7, 2)]"
proof -
  have m: "maxScaled [(8, 1), (9, 1), (10, 1), (11, 1), (12, 1), (12, 2), (12, 3), (11, 4), (10, 4), (9, 5), (8, 5), (7, 5), (6, 5), (5, 5), (4, 5), (3, 5), (2, 5), (1, 5), (1, 4), (1, 3), (1, 2), (2, 2), (3, 2), (4, 2), (5, 2), (6, 2), (7, 2)] = (90, 17)"
    by code_simp
  have c: "chordLen2 (8, 1) (7, 2) = 2"
    by code_simp
  have e: "epsilon\<^sup>2 * 2 < 90" using assms(3) by linarith
  have l: "approximatePolygon (take (17 + 1) [(8, 1), (9, 1), (10, 1), (11, 1), (12, 1), (12, 2), (12, 3), (11, 4), (10, 4), (9, 5), (8, 5), (7, 5), (6, 5), (5, 5), (4, 5), (3, 5), (2, 5), (1, 5), (1, 4), (1, 3), (1, 2), (2, 2), (3, 2), (4, 2), (5, 2), (6, 2), (7, 2)]) epsilon = Some [(8, 1), (12, 1), (12, 3), (9, 5), (1, 5)]"
    using approxL_nl [OF assms] by simp
  have r: "approximatePolygon (drop 17 [(8, 1), (9, 1), (10, 1), (11, 1), (12, 1), (12, 2), (12, 3), (11, 4), (10, 4), (9, 5), (8, 5), (7, 5), (6, 5), (5, 5), (4, 5), (3, 5), (2, 5), (1, 5), (1, 4), (1, 3), (1, 2), (2, 2), (3, 2), (4, 2), (5, 2), (6, 2), (7, 2)]) epsilon = Some [(1, 5), (1, 2), (7, 2)]"
    using approxL_nr [OF assms] by simp
  show ?thesis
    using approximatePolygon_split [of "[(8, 1), (9, 1), (10, 1), (11, 1), (12, 1), (12, 2), (12, 3), (11, 4), (10, 4), (9, 5), (8, 5), (7, 5), (6, 5), (5, 5), (4, 5), (3, 5), (2, 5), (1, 5), (1, 4), (1, 3), (1, 2), (2, 2), (3, 2), (4, 2), (5, 2), (6, 2), (7, 2)]" 90 17 epsilon "[(8, 1), (12, 1), (12, 3), (9, 5), (1, 5)]" "[(1, 5), (1, 2), (7, 2)]"] m c e assms(1) l r
    by simp
qed

text \<open>The five epsilons of the sweep on \<open>contourL\<close> lie in that range.\<close>

lemma sqrt2_bounds: "141 / 100 < sqrt 2 \<and> sqrt 2 < 142 / 100"
proof
  show "141 / 100 < sqrt 2" by (rule real_less_rsqrt) (simp add: power2_eq_square)
  show "sqrt 2 < 142 / 100" by (rule real_less_lsqrt) (simp_all add: power2_eq_square)
qed

lemma contourL_perimeter_sq:
  "797 \<le> (getContourPerimeter contourL)\<^sup>2 \<and> (getContourPerimeter contourL)\<^sup>2 \<le> 799"
proof -
  have "(24 + 3 * sqrt 2)\<^sup>2 = 594 + 144 * sqrt 2"
    by (simp add: power2_eq_square algebra_simps)
  with sqrt2_bounds show ?thesis by (simp add: contourL_perimeter)
qed

lemma contourL_epsilon:
  assumes "f \<in> set epsilonFactors"
  shows "0 \<le> f * getContourPerimeter contourL
         \<and> 79 / 1000 \<le> (f * getContourPerimeter contourL)\<^sup>2
         \<and> (f * getContourPerimeter contourL)\<^sup>2 \<le> 2"
proof -
  let ?P = "getContourPerimeter contourL"
  have sq: "(f * ?P)\<^sup>2 = f\<^sup>2 * ?P\<^sup>2" by (simp add: power_mult_distrib)
  have P: "0 \<le> ?P" by (rule getContourPerimeter_nonneg)
  from assms have "f = 1 / 100 \<or> f = 1 / 50 \<or> f = 3 / 100 \<or> f = 1 / 25 \<or> f = 1 / 20"
    by (simp add: epsilonFactors_def)
  then have "0 \<le> f \<and> 1 / 10000 \<le> f\<^sup>2 \<and> f\<^sup>2 \<le> 25 / 10000"
    by (elim disjE) (hypsubst, simp add: power2_eq_square)+
  then have f: "0 \<le> f" "1 / 10000 \<le> f\<^sup>2" "f\<^sup>2 \<le> 25 / 10000" by simp_all
  from contourL_perimeter_sq have lo: "797 \<le> ?P\<^sup>2" and hi: "?P\<^sup>2 \<le> 799" by simp_all
  have "1 / 10000 * 797 \<le> f\<^sup>2 * ?P\<^sup>2"
    using f(2) lo by (intro mult_mono) simp_all
  moreover have "f\<^sup>2 * ?P\<^sup>2 \<le> 25 / 10000 * 799"
    using f(3) hi by (intro mult_mono) simp_all
  ultimately show ?thesis using f(1) P unfolding sq by simp
qed

lemma contourL_approx:
  assumes "f \<in> set epsilonFactors"
  shows "approximatePolygon contourL (f * getContourPerimeter contourL) = Some approxL"
proof -
  from contourL_epsilon [OF assms]
  have "approximatePolygon [(8, 1), (9, 1), (10, 1), (11, 1), (12, 1), (12, 2), (12, 3), (11, 4), (10, 4), (9, 5), (8, 5), (7, 5), (6, 5), (5, 5), (4, 5), (3, 5), (2, 5), (1, 5), (1, 4), (1, 3), (1, 2), (2, 2), (3, 2), (4, 2), (5, 2), (6, 2), (7, 2)]
          (f * getContourPerimeter contourL)
        = Some [(8, 1), (12, 1), (12, 3), (9, 5), (1, 5), (1, 2), (7, 2)]"
    by (intro approxL_n) simp_all
  then show ?thesis by (simp add: contourL_def approxL_def)
qed

lemma contourL_approximations:
  "map (\<lambda>f. approximatePolygon contourL (f * getContourPerimeter contourL)) epsilonFactors
     = map Some [approxL, approxL, approxL, approxL, approxL]"
proof -
  have "map (\<lambda>f. approximatePolygon contourL (f * getContourPerimeter contourL)) epsilonFactors
          = map (\<lambda>f. Some approxL) epsilonFactors"
    by (rule map_cong [OF refl]) (rule contourL_approx)
  then show ?thesis by (simp add: epsilonFactors_def)
qed

lemma contourL_corners: "length (findCorners contourL 4) = 4"
  by (rule findCorners_four [OF contourL_distinct _ _ contourL_bbox])
     (simp_all add: contourL_length)

lemma contourL_chooseSpec:
  "chooseSpec [approxL, approxL, approxL, approxL, approxL] (findCorners contourL 4)
     = Some (findCorners contourL 4)"
proof -
  have len: "length approxL = 7" by (simp add: approxL_def)
  have "pickBest [approxL, approxL, approxL, approxL, approxL] = Some approxL"
    by (simp add: pickBest_def len Let_def)
  then show ?thesis by (simp add: chooseSpec_def len contourL_corners)
qed

lemma contourL_chooseApprox: "chooseApprox contourL = Some (Some (findCorners contourL 4))"
  using chooseApprox_spec [OF contourL_approximations] contourL_chooseSpec by simp

text \<open>
  Claim C3, as the code has it. On the five approximations, which always exist,
  chooseApprox computes \<open>chooseSpec\<close>: an approximation with exactly 4 vertices is taken,
  the first one; otherwise the earliest approximation with 4 to 8 vertices whose vertex
  count is closest to 4 is kept, and the corner search is invoked when there is none or
  when the one kept has more than 6 vertices (7 or 8); its corners replace what was kept
  only when there are exactly 4 of them.
\<close>

theorem chooseApprox_refines_chooseSpec:
  "epsilonFactors = [0.01, 0.02, 0.03, 0.04, 0.05]
   \<and> (\<exists>approxs. map (\<lambda>f. approximatePolygon contour (f * getContourPerimeter contour))
                   epsilonFactors = map Some approxs)
   \<and> (\<forall>approxs. map (\<lambda>f. approximatePolygon contour (f * getContourPerimeter contour))
                   epsilonFactors = map Some approxs \<longrightarrow>
         chooseApprox contour = Some (chooseSpec approxs (findCorners contour 4)))"
proof -
  have "\<forall>f \<in> set epsilonFactors. 0 \<le> f" by (simp add: epsilonFactors_def)
  from approximations_exist [OF this, of contour] chooseApprox_spec [of contour]
  show ?thesis by (simp add: epsilonFactors_def)
qed

text \<open>
  Claim C3 as amended, at the contour \<open>contourL\<close>: all five factors give the same 7
  vertices, and the 4 corners of the corner search are chosen.
\<close>

theorem chooseApprox_refines_chooseSpec_witness:
  "map (\<lambda>f. approximatePolygon contourL (f * getContourPerimeter contourL)) epsilonFactors
     = map Some [approxL, approxL, approxL, approxL, approxL]
   \<and> chooseApprox contourL
       = Some (chooseSpec [approxL, approxL, approxL, approxL, approxL] (findCorners contourL 4))
   \<and> chooseSpec [approxL, approxL, approxL, approxL, approxL] (findCorners contourL 4)
       = Some (findCorners contourL 4)"
proof -
  from chooseApprox_refines_chooseSpec [of contourL]
  have "\<forall>approxs. map (\<lambda>f. approximatePolygon contourL (f * getContourPerimeter contourL))
                   epsilonFactors = map Some approxs \<longrightarrow>
         chooseApprox contourL = Some (chooseSpec approxs (findCorners contourL 4))"
    by blast
  with contourL_approximations
  have "chooseApprox contourL
          = Some (chooseSpec [approxL, approxL, approxL, approxL, approxL] (findCorners contourL 4))"
    by blast
  with contourL_approximations contourL_chooseSpec show ?thesis by simp
qed

text \<open>
  Claim C3 as stated fails: on \<open>contourL\<close> the factor 0.01 (like the four others) yields
  an approximation of 7 vertices, a count in [4, 8], and yet the corner search is invoked
  and its 4 corners replace that approximation.
\<close>

theorem fallback_replaces_kept_approximation_counterexample:
  "approximatePolygon contourL (0.01 * getContourPerimeter contourL) = Some approxL
   \<and> length approxL = 7
   \<and> chooseApprox contourL = Some (Some (findCorners contourL 4))
   \<and> length (findCorners contourL 4) = 4"
proof -
  have "0.01 \<in> set epsilonFactors" by (simp add: epsilonFactors_def)
  from contourL_approx [OF this] contourL_chooseApprox contourL_corners
  show ?thesis by (simp add: approxL_def)
qed

text \<open>
  The corners of \<open>contourL\<close>: the contour runs straight at its samples 12, 13, 14 and 23
  only, and these four points are what the corner search returns. orderQuadPoints sorts
  them around their centroid (19/4, 17/4) and starts with (4, 2).
\<close>

lemma contourL_straight:
  "map (\<lambda>i. contourL ! i) (filter (straightAt contourL 3) [0 ..< length contourL])
     = [(6, 5), (5, 5), (4, 5), (4, 2)]"
  by code_simp

lemma contourL_found: "findCorners contourL 4 = cornersL"
  using contourL_straight
  by (intro findCorners_straight [OF contourL_distinct _ _ contourL_bbox])
     (simp_all add: contourL_length cornersL_def)

lemma cornersL_centroid: "centroid cornersL = (19 / 4, 17 / 4)"
  by (simp add: centroid_def cornersL_def)

lemma cornersL_angles:
  "angleFrom (19 / 4, 17 / 4) (6, 5) = arctan (3 / 5)"
  "angleFrom (19 / 4, 17 / 4) (5, 5) = arctan 3"
  "angleFrom (19 / 4, 17 / 4) (4, 5) = arctan (- 1) + pi"
  "angleFrom (19 / 4, 17 / 4) (4, 2) = arctan 3 - pi"
  by (simp_all add: angleFrom_def atan2_def)

lemma cornersL_sorted:
  "sort_key (angleFrom (centroid cornersL)) cornersL = [(4, 2), (6, 5), (5, 5), (4, 5)]"
proof -
  let ?f = "angleFrom (19 / 4, 17 / 4)"
  have b: "- (pi / 2) < arctan x" "arctan x < pi / 2" for x :: real
    by (rule arctan_lbound, rule arctan_ubound)
  have m: "arctan (3 / 5) \<le> arctan 3" by (simp add: arctan_le_iff)
  have 1: "\<not> ?f (4, 5) \<le> ?f (4, 2)"
    unfolding cornersL_angles using b [of 3] b [of "- 1"] pi_gt_zero by linarith
  have 2: "\<not> ?f (5, 5) \<le> ?f (4, 2)"
    unfolding cornersL_angles using pi_gt_zero by linarith
  have 3: "?f (5, 5) \<le> ?f (4, 5)"
    unfolding cornersL_angles using b [of 3] b [of "- 1"] by linarith
  have 4: "\<not> ?f (6, 5) \<le> ?f (4, 2)"
    unfolding cornersL_angles using b [of 3] b [of "3 / 5"] by linarith
  have 5: "?f (6, 5) \<le> ?f (5, 5)"
    unfolding cornersL_angles using m by simp
  show ?thesis
    unfolding cornersL_centroid by (simp add: cornersL_def 1 2 3 4 5)
qed

lemma cornersL_ordered: "orderQuadPoints cornersL = [(4, 2), (6, 5), (5, 5), (4, 5)]"
proof -
  have u: "[0 ..< 4] = [0, 1, 2, 3::nat]" by code_simp
  have "findStartIdx [(4, 2), (6, 5), (5, 5), (4, 5)] = 0"
    by (simp add: findStartIdx_def u Let_def)
  then show ?thesis
    by (simp add: orderQuadPoints_def cornersL_sorted Let_def u) (simp add: cornersL_def)
qed

lemma cornersL_convex: "isConvex [(4, 2), (6, 5), (5, 5), (4, 5)] = True"
proof -
  have u: "[0 ..< 4] = [0, 1, 2, 3::nat]" by code_simp
  show ?thesis by (simp add: isConvex_def u Let_def)
qed

text \<open>detectDocuments on \<open>maskL\<close>, on the black image, and the contour of the line mask.\<close>

lemma contourL_aspect: "aspectRatioOf contourL = Num (11 / 4)"
  by (simp add: aspectRatioOf_def contourL_bbox jsdiv_def)

lemma contourL_processed:
  assumes "minArea \<le> 69 / 2" and "69 / 2 \<le> maxArea"
  shows "processContour minArea maxArea contourL = Some (Some (boundaryL\<lparr>b_type := None\<rparr>))"
proof -
  have pf: "passesFilter minArea maxArea contourL"
    using assms by (simp add: passesFilter_def contourL_area contourL_aspect)
  have len: "length cornersL = 4" by (simp add: cornersL_def)
  have ch: "chooseApprox contourL = Some (Some cornersL)"
    using contourL_chooseApprox contourL_found by simp
  show ?thesis
    using pf len
    by (simp add: processContour_def ch contourL_bbox contourL_area contourL_aspect
          cornersL_ordered cornersL_convex boundaryL_def Let_def)
qed

lemma contourL_too_small:
  assumes "69 / 2 < minArea"
  shows "processContour minArea maxArea contourL = Some None"
  using assms by (simp add: processContour_def passesFilter_def contourL_area)

lemma single_filterOverlapping: "filterOverlapping [b] thr = [b]"
  by (simp add: filterOverlapping_suppress)

lemma single_classifyDetections:
  "classifyDetections [b] = [b\<lparr>b_type := Some (case b_type b of Some t \<Rightarrow> t | None \<Rightarrow> ''single-document'')\<rparr>]"
  by (simp add: classifyDetections_def spreadTypes_def)

lemma nothing_detected:
  assumes "collectBoundaries (real (width * height) * minAreaRatioOf opts)
             (real (width * height) * maxAreaRatioOf opts)
             (findContours processed width height) [] = Some []"
  shows "detectDocuments opts width height processed stagesW = Some noneResultW"
  using assms
  by (simp add: detectDocuments_def filterOverlapping_def markOverlapping_def
        classifyDetections_def spreadTypes_def noneResultW_def statsW_def Let_def)

lemma maskL_detected_within:
  assumes "98 * minAreaRatioOf opts \<le> 69 / 2" and "69 / 2 \<le> 98 * maxAreaRatioOf opts"
  shows "detectDocuments opts 14 7 maskL stagesW = Some resultL"
proof -
  have "collectBoundaries (real (14 * 7) * minAreaRatioOf opts)
          (real (14 * 7) * maxAreaRatioOf opts) [contourL] [] = Some [boundaryL\<lparr>b_type := None\<rparr>]"
    using contourL_processed [of "real (14 * 7) * minAreaRatioOf opts"
            "real (14 * 7) * maxAreaRatioOf opts"] assms
    by simp
  then show ?thesis
    by (simp add: detectDocuments_def maskL_contours single_filterOverlapping
          single_classifyDetections resultL_def boundaryL_def statsW_def)
qed

lemma maskL_detected: "detectDocuments baseW 14 7 maskL stagesW = Some resultL"
  by (rule maskL_detected_within) (simp_all add: minAreaRatioOf_def maxAreaRatioOf_def baseW_def)

lemma maskL_wide: "detectDocuments wideW 14 7 maskL stagesW = Some resultL"
  by (rule maskL_detected_within) (simp_all add: minAreaRatioOf_def maxAreaRatioOf_def wideW_def)

lemma maskL_narrow: "detectDocuments narrowW 14 7 maskL stagesW = Some noneResultW"
proof (rule nothing_detected)
  have "processContour (real (14 * 7) * minAreaRatioOf narrowW)
          (real (14 * 7) * maxAreaRatioOf narrowW) contourL = Some None"
    by (rule contourL_too_small) (simp add: minAreaRatioOf_def narrowW_def)
  then show "collectBoundaries (real (14 * 7) * minAreaRatioOf narrowW)
               (real (14 * 7) * maxAreaRatioOf narrowW) (findContours maskL 14 7) [] = Some []"
    by (simp add: maskL_contours)
qed

lemma maskZ_contours: "findContours maskZ 8 8 = []"
  by code_simp

lemma detectBlack_nothing: "detectBlack opts = Inr noneResultW"
proof -
  have "detectDocuments opts 8 8 maskZ stagesW = Some noneResultW"
    by (rule nothing_detected) (simp add: maskZ_contours)
  then show ?thesis by (simp add: detectBlack_def)
qed

lemma maskLine_contours: "findContours maskLine 13 3 = [contourLine]"
  by code_simp

lemma contourLine_bbox:
  "getBoundingBox contourLine = Some \<lparr>rx = 1, ry = 1, rwidth = 10, rheight = 0\<rparr>"
  by (simp add: getBoundingBox_def contourLine_def)

section \<open>The claims about the boundaries, on the concrete masks\<close>

text \<open>
  Claim C6 on \<open>maskL\<close>, an image of 98 pixels whose one contour has area 69/2 and a
  bounding box of 11 by 4. With the options \<open>wideW\<close> (ratios 0.01 and 0.98) the area of
  the boundary lies between 0.98 and 96.04, with no options between 1.96 and 93.1. With
  the options \<open>narrowW\<close> the lower limit is 49 and nothing is returned.
\<close>

theorem boundaries_area_aspect_witness:
  "detectDocuments wideW 14 7 maskL stagesW = Some resultL
   \<and> detectDocuments baseW 14 7 maskL stagesW = Some resultL
   \<and> r_boundaries resultL = [boundaryL]
   \<and> o_minAreaRatio wideW = Some (1 / 100) \<and> o_maxAreaRatio wideW = Some (98 / 100)
   \<and> 1 / 100 * real (14 * 7) \<le> b_area boundaryL
   \<and> b_area boundaryL \<le> 98 / 100 * real (14 * 7)
   \<and> o_minAreaRatio baseW = None \<and> o_maxAreaRatio baseW = None
   \<and> 2 / 100 * real (14 * 7) \<le> b_area boundaryL
   \<and> b_area boundaryL \<le> 95 / 100 * real (14 * 7)
   \<and> b_area boundaryL = 69 / 2
   \<and> b_aspectRatio boundaryL = Num (11 / 4)
   \<and> b_boundingRect boundaryL = \<lparr>rx = 1, ry = 1, rwidth = 11, rheight = 4\<rparr>
   \<and> o_minAreaRatio narrowW = Some (1 / 2)
   \<and> detectDocuments narrowW 14 7 maskL stagesW = Some noneResultW
   \<and> r_boundaries noneResultW = []"
proof -
  have member: "boundaryL \<in> set (r_boundaries resultL)" by (simp add: resultL_def)
  from boundaries_area_aspect [of wideW 14 7 maskL stagesW] maskL_wide
  have "\<forall>b \<in> set (r_boundaries resultL).
          (case o_minAreaRatio wideW of None \<Rightarrow> 0.02 | Some ratio \<Rightarrow> ratio) * real (14 * 7) \<le> b_area b
          \<and> b_area b \<le> (case o_maxAreaRatio wideW of None \<Rightarrow> 0.95 | Some ratio \<Rightarrow> ratio) * real (14 * 7)"
    by auto
  with member have wide: "1 / 100 * real (14 * 7) \<le> b_area boundaryL
                          \<and> b_area boundaryL \<le> 98 / 100 * real (14 * 7)"
    by (simp add: wideW_def)
  from boundaries_area_aspect [of baseW 14 7 maskL stagesW] maskL_detected
  have "\<forall>b \<in> set (r_boundaries resultL).
          (case o_minAreaRatio baseW of None \<Rightarrow> 0.02 | Some ratio \<Rightarrow> ratio) * real (14 * 7) \<le> b_area b
          \<and> b_area b \<le> (case o_maxAreaRatio baseW of None \<Rightarrow> 0.95 | Some ratio \<Rightarrow> ratio) * real (14 * 7)"
    by auto
  with member have base: "2 / 100 * real (14 * 7) \<le> b_area boundaryL
                          \<and> b_area boundaryL \<le> 95 / 100 * real (14 * 7)"
    by (simp add: baseW_def)
  have opts: "o_minAreaRatio wideW = Some (1 / 100) \<and> o_maxAreaRatio wideW = Some (98 / 100)
              \<and> o_minAreaRatio baseW = None \<and> o_maxAreaRatio baseW = None
              \<and> o_minAreaRatio narrowW = Some (1 / 2)"
    by (simp add: wideW_def baseW_def narrowW_def)
  have lits: "r_boundaries resultL = [boundaryL] \<and> b_area boundaryL = 69 / 2
              \<and> b_aspectRatio boundaryL = Num (11 / 4)
              \<and> b_boundingRect boundaryL = \<lparr>rx = 1, ry = 1, rwidth = 11, rheight = 4\<rparr>
              \<and> r_boundaries noneResultW = []"
    by (simp add: resultL_def boundaryL_def noneResultW_def)
  from wide base opts lits maskL_wide maskL_detected maskL_narrow show ?thesis by blast
qed

text \<open>
  Claim C8 on \<open>maskL\<close>: the approximation chosen for its contour are the four corners
  (6, 5), (5, 5), (4, 5), (4, 2), with centroid (19/4, 17/4). Seen from it their angles
  are \<open>arctan (3/5)\<close>, \<open>arctan 3\<close>, \<open>3 pi / 4\<close> and \<open>arctan 3 - pi\<close>, so the order by angle
  is (4, 2), (6, 5), (5, 5), (4, 5); it starts with the least \<open>x + y\<close>, which is 6, and
  these are the points of the boundary.
\<close>

theorem quad_points_ordered_witness:
  "detectDocuments baseW 14 7 maskL stagesW = Some resultL
   \<and> r_boundaries resultL = [boundaryL]
   \<and> findContours maskL 14 7 = [contourL]
   \<and> chooseApprox contourL = Some (Some [(6, 5), (5, 5), (4, 5), (4, 2)])
   \<and> b_numVertices boundaryL = 4
   \<and> b_points boundaryL = [(4, 2), (6, 5), (5, 5), (4, 5)]
   \<and> orderedQuadSpec [(6, 5), (5, 5), (4, 5), (4, 2)] [(4, 2), (6, 5), (5, 5), (4, 5)]
   \<and> specCentroid [(6, 5), (5, 5), (4, 5), (4, 2)] = (19 / 4, 17 / 4)
   \<and> map (specAngle [(6, 5), (5, 5), (4, 5), (4, 2)]) [(4, 2), (6, 5), (5, 5), (4, 5)]
       = [arctan 3 - pi, arctan (3 / 5), arctan 3, arctan (- 1) + pi]
   \<and> map coordSum [(4, 2), (6, 5), (5, 5), (4, 5)] = [6, 11, 10, 9]"
proof -
  have ch: "chooseApprox contourL = Some (Some cornersL)"
    using contourL_chooseApprox contourL_found by simp
  have len: "length cornersL = 4" by (simp add: cornersL_def)
  from quad_points_ordered [of baseW 14 7 maskL stagesW] maskL_detected
  have "\<forall>b \<in> set (r_boundaries resultL).
           \<exists>c \<in> set (findContours maskL 14 7).
             \<exists>approx. chooseApprox c = Some (Some approx)
               \<and> 4 \<le> length approx \<and> length approx \<le> 8
               \<and> b_numVertices b = length approx
               \<and> (if length approx = 4 then orderedQuadSpec approx (b_points b)
                   else b_points b = approx)"
    by auto
  moreover have "boundaryL \<in> set (r_boundaries resultL)" by (simp add: resultL_def)
  ultimately have "\<exists>c \<in> set (findContours maskL 14 7).
             \<exists>approx. chooseApprox c = Some (Some approx)
               \<and> 4 \<le> length approx \<and> length approx \<le> 8
               \<and> b_numVertices boundaryL = length approx
               \<and> (if length approx = 4 then orderedQuadSpec approx (b_points boundaryL)
                   else b_points boundaryL = approx)"
    by blast
  then obtain approx where "chooseApprox contourL = Some (Some approx)"
      "b_numVertices boundaryL = length approx"
      "if length approx = 4 then orderedQuadSpec approx (b_points boundaryL)
       else b_points boundaryL = approx"
    unfolding maskL_contours by auto
  with ch len have "b_numVertices boundaryL = 4 \<and> orderedQuadSpec cornersL (b_points boundaryL)"
    by auto
  then have spec: "b_numVertices boundaryL = 4
                   \<and> orderedQuadSpec [(6, 5), (5, 5), (4, 5), (4, 2)] [(4, 2), (6, 5), (5, 5), (4, 5)]"
    by (simp add: cornersL_def boundaryL_def)
  have cen: "specCentroid [(6, 5), (5, 5), (4, 5), (4, 2)] = (19 / 4, 17 / 4)"
    by (simp add: specCentroid_def)
  have "specAngle cornersL p = angleFrom (19 / 4, 17 / 4) p" for p
    using angleFrom_specAngle [OF len, of p] by (simp add: cornersL_centroid)
  then have ang: "map (specAngle [(6, 5), (5, 5), (4, 5), (4, 2)]) [(4, 2), (6, 5), (5, 5), (4, 5)]
                    = [arctan 3 - pi, arctan (3 / 5), arctan 3, arctan (- 1) + pi]"
    by (simp add: cornersL_def cornersL_angles)
  have sums: "map coordSum [(4, 2), (6, 5), (5, 5), (4, 5)] = [6, 11, 10, 9]"
    by (simp add: coordSum_def)
  have lits: "r_boundaries resultL = [boundaryL]
              \<and> b_points boundaryL = [(4, 2), (6, 5), (5, 5), (4, 5)]"
    by (simp add: resultL_def boundaryL_def)
  from ch have ch': "chooseApprox contourL = Some (Some [(6, 5), (5, 5), (4, 5), (4, 2)])"
    by (simp add: cornersL_def)
  from spec cen ang sums lits ch' maskL_detected maskL_contours show ?thesis by blast
qed

text \<open>
  Claim C9 on the line mask, with area limits 0 and 100 that let the area 0 of its contour
  pass: the contour has a bounding box of height 0 and is rejected, by the aspect test.
  And on \<open>maskL\<close>: the bounding box of the boundary has height 4.
\<close>

theorem zero_height_contour_discarded_witness:
  "contourLine \<in> set (findContours maskLine 13 3)
   \<and> getBoundingBox contourLine = Some \<lparr>rx = 1, ry = 1, rwidth = 10, rheight = 0\<rparr>
   \<and> calculateContourArea contourLine = 0
   \<and> aspectRatioOf contourLine = PosInf
   \<and> \<not> passesFilter 0 100 contourLine
   \<and> processContour 0 100 contourLine = Some None
   \<and> detectDocuments baseW 14 7 maskL stagesW = Some resultL
   \<and> r_boundaries resultL = [boundaryL]
   \<and> rheight (b_boundingRect boundaryL) = 4"
proof -
  have m: "contourLine \<in> set (findContours maskLine 13 3)" by (simp add: maskLine_contours)
  have u: "[0 ..< 20] = [0, 1, 2, 3, 4, 5, 6, 7, 8, 9, 10, 11, 12, 13, 14, 15, 16, 17, 18, 19::nat]"
    by code_simp
  have area: "calculateContourArea contourLine = 0"
    by (simp add: calculateContourArea_def contourLine_def u Let_def)
  have ar: "aspectRatioOf contourLine = PosInf"
    by (simp add: aspectRatioOf_def contourLine_bbox jsdiv_def)
  from zero_height_contour_discarded
         [where processed = maskLine and width = 13 and height = 3 and minArea = 0
            and maxArea = 100 and opts = baseW and stages = stagesW]
  have "\<forall>c \<in> set (findContours maskLine 13 3).
      \<forall>bbox. getBoundingBox c = Some bbox \<and> rheight bbox = 0 \<longrightarrow>
        \<not> passesFilter 0 100 c \<and> processContour 0 100 c = Some None"
    by blast
  with m contourLine_bbox
  have "\<not> passesFilter 0 100 contourLine \<and> processContour 0 100 contourLine = Some None"
    by simp
  with m area ar contourLine_bbox maskL_detected show ?thesis
    by (simp add: resultL_def boundaryL_def)
qed

section \<open>The strategy loop on a black image\<close>

text \<open>
  Claim C2. The claim asks for the stage images of some run in the result that is
  returned when every run completes without a boundary. On the image of 8 by 8 black
  pixels each of the four runs completes, finds no boundary and carries the four stage
  images and its stats, with the list \<open>processingPipeline\<close>. What detectDocumentsEnhanced
  returns is none of them but the object its loop starts from: no boundaries, an
  intermediate map without any entry and stats without \<open>processingPipeline\<close>.
\<close>

theorem detectDocumentsEnhanced_black_image:
  "map detectBlack (strategies baseW)
     = [Inr noneResultW, Inr noneResultW, Inr noneResultW, Inr noneResultW]
   \<and> r_boundaries noneResultW = []
   \<and> dom (r_intermediate noneResultW) = {''grayscale'', ''edges'', ''threshold'', ''processed''}
   \<and> r_stats noneResultW = Some \<lparr>totalDetected = 0, processingPipeline =
        [''grayscale'', ''blur'', ''edges'', ''threshold'', ''contours'', ''filter'']\<rparr>
   \<and> detectDocumentsEnhanced detectBlack baseW = (emptyResult, strategies baseW)
   \<and> r_boundaries emptyResult = []
   \<and> dom (r_intermediate emptyResult) = {}
   \<and> r_stats emptyResult = None
   \<and> fst (detectDocumentsEnhanced detectBlack baseW) \<noteq> noneResultW"
proof -
  have runs: "map detectBlack (strategies baseW)
                = [Inr noneResultW, Inr noneResultW, Inr noneResultW, Inr noneResultW]"
    by (simp add: detectBlack_nothing strategies_def)
  have "\<forall>s \<in> set (strategies baseW). \<exists>r. detectBlack s = Inr r \<and> r_boundaries r = []"
    by (simp add: detectBlack_nothing noneResultW_def)
  then have ret: "detectDocumentsEnhanced detectBlack baseW = (emptyResult, strategies baseW)"
    by (rule detectDocumentsEnhanced_placeholder)
  have run: "r_boundaries noneResultW = []
             \<and> dom (r_intermediate noneResultW) = {''grayscale'', ''edges'', ''threshold'', ''processed''}
             \<and> r_stats noneResultW = Some \<lparr>totalDetected = 0, processingPipeline =
                  [''grayscale'', ''blur'', ''edges'', ''threshold'', ''contours'', ''filter'']\<rparr>"
    by (auto simp: noneResultW_def stagesW_def statsW_def)
  have empty: "r_boundaries emptyResult = [] \<and> dom (r_intermediate emptyResult) = {}
               \<and> r_stats emptyResult = None"
    by (simp add: emptyResult_def)
  have "r_stats emptyResult \<noteq> r_stats noneResultW"
    by (simp add: emptyResult_def noneResultW_def statsW_def)
  then have "emptyResult \<noteq> noneResultW" by auto
  with ret have ne: "fst (detectDocumentsEnhanced detectBlack baseW) \<noteq> noneResultW" by simp
  from runs run ret empty ne show ?thesis by blast
qed

end
